theory Spec2Isabelle
  imports Complex_Main "HOL-Library.Word"
begin

unbundle bit_operations_syntax

section \<open>The coreDAQ driver (coredaq\_py\_api.py) as HOL functions\<close>

text \<open>
  The driver class \<^verbatim>\<open>CoreDAQ\<close> is embedded shallowly. Python's unbounded \<^verbatim>\<open>int\<close> is
  \<^typ>\<open>int\<close>; Python's \<^verbatim>\<open>float\<close> is \<^typ>\<open>real\<close>, so every arithmetic step is exact and
  the rounding, overflow and special values of IEEE doubles are outside the model. An
  exception is a value of \<open>py_exception\<close>, and a method that may raise returns
  \<open>py_exception + 'a\<close>. The delays (\<^verbatim>\<open>time.sleep\<close>) and the lock are not modelled.
\<close>

subsection \<open>Exceptions\<close>

datatype frontend = LINEAR | LOG

text \<open>
  \<^verbatim>\<open>CoreDAQError\<close> carries a formatted message; the model keeps the data each message is
  formatted from. \<open>NotSupported feature actual expected\<close> is the message of
  \<^verbatim>\<open>_require_frontend\<close>. The attribute \<^verbatim>\<open>_frontend_type\<close> only ever holds one of the two
  strings that \<^verbatim>\<open>_detect_frontend_type_once\<close> returns, so it is a value of
  \<^typ>\<open>frontend\<close> and the branches \<^verbatim>\<open>Unknown frontend type\<close> have no counterpart.
\<close>

datatype coredaq_msg =
    NotSupported string frontend frontend
  | LutNotLoaded
  | LutEmpty
  | LutLengthMismatch
  | InvalidSlope nat int
  | GainFailed int string
  | XferRefused string
  | DeviceTimeout
  | ParseMismatch int nat
  | FreqRange
  | DeviceReply string

datatype py_exception =
    CoreDAQError coredaq_msg
  | ValueError string
  | TimeoutError nat nat
  | IndexError
  | TypeError

definition bindE :: "'e + 'a \<Rightarrow> ('a \<Rightarrow> 'e + 'b) \<Rightarrow> 'e + 'b" where
  "bindE m f = (case m of Inl e \<Rightarrow> Inl e | Inr a \<Rightarrow> f a)"

text \<open>A comprehension or loop over a list whose body may raise: the first exception ends it.\<close>

fun mapE :: "('a \<Rightarrow> 'e + 'b) \<Rightarrow> 'a list \<Rightarrow> 'e + 'b list" where
  "mapE f [] = Inr []"
| "mapE f (x # xs) =
     (case f x of
        Inl e \<Rightarrow> Inl e
      | Inr y \<Rightarrow> (case mapE f xs of Inl e \<Rightarrow> Inl e | Inr ys \<Rightarrow> Inr (y # ys)))"

text \<open>Python's \<^verbatim>\<open>xs[i]\<close>: a negative index counts from the end, out of range raises.\<close>

definition py_get :: "'a list \<Rightarrow> int \<Rightarrow> py_exception + 'a" where
  "py_get xs i =
     (if 0 \<le> i \<and> i < int (length xs) then Inr (xs ! nat i)
      else if i < 0 \<and> 0 \<le> int (length xs) + i then Inr (xs ! nat (int (length xs) + i))
      else Inl IndexError)"

subsection \<open>Numbers\<close>

text \<open>\<^verbatim>\<open>round(x)\<close> rounds to the nearest integer, a tie to the even one.\<close>

definition py_round_int :: "real \<Rightarrow> int" where
  "py_round_int x =
     (let f = \<lfloor>x\<rfloor>; r = x - of_int f
      in if r < 1 / 2 then f else if 1 / 2 < r then f + 1 else if even f then f else f + 1)"

text \<open>\<^verbatim>\<open>round(x, ndigits)\<close> on the exact value of \<open>x\<close>.\<close>

definition py_round :: "real \<Rightarrow> int \<Rightarrow> real" where
  "py_round x ndigits =
     (if 0 \<le> ndigits then of_int (py_round_int (x * 10 ^ nat ndigits)) / 10 ^ nat ndigits
      else of_int (py_round_int (x / 10 ^ nat (- ndigits))) * 10 ^ nat (- ndigits))"

definition ADC_BITS :: nat where
  "ADC_BITS = 16"

definition ADC_VFS_VOLTS :: real where
  "ADC_VFS_VOLTS = 5"

definition ADC_LSB_VOLTS :: real where
  "ADC_LSB_VOLTS = (2 * ADC_VFS_VOLTS) / (2 ^ ADC_BITS)"

definition NUM_HEADS :: nat where
  "NUM_HEADS = 4"

definition NUM_GAINS :: nat where
  "NUM_GAINS = 8"

subsection \<open>The device behind the serial port\<close>

text \<open>
  The device is a state of an arbitrary type \<open>'d\<close> with one function per exchange the
  driver makes. \<open>ask\<close> is \<^verbatim>\<open>_ask\<close> for the commands whose reply is used as a status
  only. The other fields stand for the methods that parse reply text: each gives the
  parsed value or the exception the method raises. \<open>head_type_query\<close> is
  \<^verbatim>\<open>_detect_frontend_type_once\<close>, \<open>cal_query\<close> one cell of \<^verbatim>\<open>_load_linear_calibration\<close>
  (slope, intercept), \<open>logcal_query\<close> the records \<^verbatim>\<open>(V_mV, Q16)\<close> unpacked by
  \<^verbatim>\<open>_load_log_calibration\<close>, \<open>factory_zeros_query\<close> the four integers parsed by
  \<^verbatim>\<open>_load_factory_zeros\<close>, \<open>snapshot_adc\<close> the method of that name (four codes, four
  gains), \<open>get_oversampling\<close> the method of that name and \<open>gains_query\<close> the exchange of
  \<^verbatim>\<open>get_gains\<close>. \<open>xfer_line\<close> is \<^verbatim>\<open>ser.readline()\<close> after \<^verbatim>\<open>XFER n\<close> was written, decoded
  and stripped (\<open>None\<close> when nothing arrived), and \<open>read\<close> is \<^verbatim>\<open>ser.read(n)\<close>.
\<close>

datatype status = OK | ERR | BUSY

datatype command =
    CmdI2CREFRESH
  | CmdHEADTYPEQ
  | CmdCAL int int
  | CmdLOGCAL
  | CmdFACTORYZEROSQ
  | CmdGAIN int int
  | CmdGAINSQ
  | CmdSNAP int
  | CmdFREQ int
  | CmdOS int
  | CmdOSQ
  | CmdXFER nat

record 'd device =
  ask :: "command \<Rightarrow> 'd \<Rightarrow> (status \<times> string) \<times> 'd"
  head_type_query :: "'d \<Rightarrow> (py_exception + frontend) \<times> 'd"
  cal_query :: "int \<Rightarrow> int \<Rightarrow> 'd \<Rightarrow> (py_exception + real \<times> real) \<times> 'd"
  logcal_query :: "'d \<Rightarrow> (py_exception + (int \<times> int) list) \<times> 'd"
  factory_zeros_query :: "'d \<Rightarrow> (py_exception + int list) \<times> 'd"
  snapshot_adc :: "int \<Rightarrow> 'd \<Rightarrow> (py_exception + int list \<times> int list) \<times> 'd"
  get_oversampling :: "'d \<Rightarrow> (py_exception + int) \<times> 'd"
  gains_query :: "'d \<Rightarrow> (py_exception + int list) \<times> 'd"
  xfer_line :: "nat \<Rightarrow> 'd \<Rightarrow> string option \<times> 'd"
  read :: "nat \<Rightarrow> 'd \<Rightarrow> 8 word list \<times> 'd"

text \<open>
  The world is the device state together with the list of commands written so far, oldest
  first. The list is not in the source: it records what \<^verbatim>\<open>_writeln\<close> has sent, one entry
  per exchange.
\<close>

type_synonym 'd world = "command list \<times> 'd"

definition exchange :: "command \<Rightarrow> ('d \<Rightarrow> 'r \<times> 'd) \<Rightarrow> 'd world \<Rightarrow> 'r \<times> 'd world" where
  "exchange c f w = (case f (snd w) of (r, d') \<Rightarrow> (r, (fst w @ [c], d')))"

definition ask_cmd :: "'d device \<Rightarrow> command \<Rightarrow> 'd world \<Rightarrow> (status \<times> string) \<times> 'd world" where
  "ask_cmd dev c w = exchange c (ask dev c) w"

subsection \<open>The session\<close>

record session =
  frontend_type :: frontend
  cal_slope :: "real list list"
  cal_intercept :: "real list list"
  mv_zero_threshold :: real
  factory_zero_adc :: "int list"
  linear_zero_adc :: "int list"
  loglut_V_V :: "real list option"
  loglut_log10P :: "real list option"
  loglut_V_mV :: "int list option"
  loglut_log10P_Q16 :: "int list option"
  log_deadband_mV :: real

definition require_frontend :: "session \<Rightarrow> frontend \<Rightarrow> string \<Rightarrow> py_exception + unit" where
  "require_frontend s expected feature =
     (if frontend_type s \<noteq> expected
      then Inl (CoreDAQError (NotSupported feature (frontend_type s) expected))
      else Inr ())"

text \<open>The attributes as \<^verbatim>\<open>__init__\<close> assigns them before anything is loaded.\<close>

definition fresh_session :: "frontend \<Rightarrow> session" where
  "fresh_session ft =
     \<lparr> frontend_type = ft,
       cal_slope = replicate NUM_HEADS (replicate NUM_GAINS 0),
       cal_intercept = replicate NUM_HEADS (replicate NUM_GAINS 0),
       mv_zero_threshold = 0,
       factory_zero_adc = [0, 0, 0, 0],
       linear_zero_adc = [0, 0, 0, 0],
       loglut_V_V = None,
       loglut_log10P = None,
       loglut_V_mV = None,
       loglut_log10P_Q16 = None,
       log_deadband_mV = 300 \<rparr>"

subsection \<open>Zero offsets (LINEAR)\<close>

definition load_factory_zeros ::
  "'d device \<Rightarrow> session \<Rightarrow> 'd world \<Rightarrow> (py_exception + int list) \<times> session \<times> 'd world" where
  "load_factory_zeros dev s w =
     (case require_frontend s LINEAR ''_load_factory_zeros'' of
        Inl e \<Rightarrow> (Inl e, s, w)
      | Inr _ \<Rightarrow>
          (case exchange CmdFACTORYZEROSQ (factory_zeros_query dev) w of
             (Inl e, w1) \<Rightarrow> (Inl e, s, w1)
           | (Inr z, w1) \<Rightarrow> (Inr z, s\<lparr>factory_zero_adc := z, linear_zero_adc := z\<rparr>, w1)))"

definition refresh_factory_zeros ::
  "'d device \<Rightarrow> session \<Rightarrow> 'd world \<Rightarrow> (py_exception + int list) \<times> session \<times> 'd world" where
  "refresh_factory_zeros dev s w =
     (if frontend_type s \<noteq> LINEAR then (Inr [0, 0, 0, 0], s, w)
      else load_factory_zeros dev s w)"

definition get_linear_zero_adc :: "session \<Rightarrow> int list" where
  "get_linear_zero_adc s =
     (if frontend_type s \<noteq> LINEAR then [0, 0, 0, 0] else linear_zero_adc s)"

definition get_factory_zero_adc :: "session \<Rightarrow> int list" where
  "get_factory_zero_adc s =
     (if frontend_type s \<noteq> LINEAR then [0, 0, 0, 0] else factory_zero_adc s)"

definition set_soft_zero_adc :: "session \<Rightarrow> int \<Rightarrow> int \<Rightarrow> int \<Rightarrow> int \<Rightarrow> py_exception + session" where
  "set_soft_zero_adc s z1 z2 z3 z4 =
     (if frontend_type s \<noteq> LINEAR then Inr s
      else Inr (s\<lparr>linear_zero_adc := [z1, z2, z3, z4]\<rparr>))"

text \<open>\<^verbatim>\<open>except Exception: pass\<close> swallows a failed load; the load assigns nothing then.\<close>

definition restore_factory_zero ::
  "'d device \<Rightarrow> session \<Rightarrow> 'd world \<Rightarrow> (py_exception + unit) \<times> session \<times> 'd world" where
  "restore_factory_zero dev s w =
     (if frontend_type s \<noteq> LINEAR then (Inr (), s, w)
      else if factory_zero_adc s = [0, 0, 0, 0] then
        (case load_factory_zeros dev s w of
           (Inr z, s1, w1) \<Rightarrow> (Inr (), s1, w1)
         | (Inl e, s1, w1) \<Rightarrow> (Inr (), s1\<lparr>linear_zero_adc := factory_zero_adc s1\<rparr>, w1))
      else (Inr (), s\<lparr>linear_zero_adc := factory_zero_adc s\<rparr>, w))"

definition do_snapshot_adc ::
  "'d device \<Rightarrow> int \<Rightarrow> 'd world \<Rightarrow> (py_exception + int list \<times> int list) \<times> 'd world" where
  "do_snapshot_adc dev n_frames w = exchange (CmdSNAP n_frames) (snapshot_adc dev n_frames) w"

definition soft_zero_from_snapshot ::
  "'d device \<Rightarrow> session \<Rightarrow> int \<Rightarrow> 'd world
     \<Rightarrow> (py_exception + int list \<times> int list) \<times> session \<times> 'd world" where
  "soft_zero_from_snapshot dev s n_frames w =
     (case require_frontend s LINEAR ''soft_zero_from_snapshot'' of
        Inl e \<Rightarrow> (Inl e, s, w)
      | Inr _ \<Rightarrow>
          if n_frames \<le> 0 then (Inl (ValueError ''n_frames must be > 0''), s, w)
          else (case do_snapshot_adc dev n_frames w of
                  (Inl e, w1) \<Rightarrow> (Inl e, s, w1)
                | (Inr (codes, gains), w1) \<Rightarrow>
                    (case mapE (py_get codes) [0, 1, 2, 3] of
                       Inl e \<Rightarrow> (Inl e, s, w1)
                     | Inr z \<Rightarrow> (Inr (codes, gains), s\<lparr>linear_zero_adc := z\<rparr>, w1))))"

text \<open>\<^verbatim>\<open>[int(codes[i]) - int(self._linear_zero_adc[i]) for i in range(4)]\<close>\<close>

definition apply_linear_zero_ch :: "session \<Rightarrow> int list \<Rightarrow> py_exception + int list" where
  "apply_linear_zero_ch s codes =
     (if frontend_type s \<noteq> LINEAR then Inr codes
      else mapE (\<lambda>i. bindE (py_get codes i) (\<lambda>c.
                      bindE (py_get (linear_zero_adc s) i) (\<lambda>z. Inr (c - z))))
             [0, 1, 2, 3])"

subsection \<open>LOG deadband controls\<close>

definition set_log_deadband_mV :: "session \<Rightarrow> real \<Rightarrow> py_exception + session" where
  "set_log_deadband_mV s deadband_mV =
     (if deadband_mV < 0 then Inl (ValueError ''deadband_mV must be >= 0'')
      else Inr (s\<lparr>log_deadband_mV := deadband_mV\<rparr>))"

definition get_log_deadband_mV :: "session \<Rightarrow> real" where
  "get_log_deadband_mV s = log_deadband_mV s"

subsection \<open>Calibration loading and construction\<close>

text \<open>The two nested \<^verbatim>\<open>for\<close> loops of \<^verbatim>\<open>_load_linear_calibration\<close>, over the cells in order.\<close>

fun load_linear_cells ::
  "'d device \<Rightarrow> (int \<times> int) list \<Rightarrow> session \<Rightarrow> 'd world \<Rightarrow> (py_exception + unit) \<times> session \<times> 'd world" where
  "load_linear_cells dev [] s w = (Inr (), s, w)"
| "load_linear_cells dev ((head, gain) # rest) s w =
     (case exchange (CmdCAL head gain) (cal_query dev head gain) w of
        (Inl e, w1) \<Rightarrow> (Inl e, s, w1)
      | (Inr (slope, intercept), w1) \<Rightarrow>
          load_linear_cells dev rest
            (s\<lparr>cal_slope := (cal_slope s)[nat (head - 1) :=
                               (cal_slope s ! nat (head - 1))[nat gain := slope]],
               cal_intercept := (cal_intercept s)[nat (head - 1) :=
                               (cal_intercept s ! nat (head - 1))[nat gain := intercept]]\<rparr>)
            w1)"

definition load_linear_calibration ::
  "'d device \<Rightarrow> session \<Rightarrow> 'd world \<Rightarrow> (py_exception + unit) \<times> session \<times> 'd world" where
  "load_linear_calibration dev s w =
     load_linear_cells dev (List.product [1, 2, 3, 4] [0, 1, 2, 3, 4, 5, 6, 7]) s w"

definition load_log_calibration ::
  "'d device \<Rightarrow> session \<Rightarrow> 'd world \<Rightarrow> (py_exception + unit) \<times> session \<times> 'd world" where
  "load_log_calibration dev s w =
     (case exchange CmdLOGCAL (logcal_query dev) w of
        (Inl e, w1) \<Rightarrow> (Inl e, s, w1)
      | (Inr records, w1) \<Rightarrow>
          (let V_mV = map fst records; Q16 = map snd records
           in if V_mV = [] then (Inl (CoreDAQError LutEmpty), s, w1)
              else (let s1 = s\<lparr>loglut_V_mV := Some V_mV,
                               loglut_log10P_Q16 := Some Q16,
                               loglut_V_V := Some (map (\<lambda>v. of_int v / 1000) V_mV),
                               loglut_log10P := Some (map (\<lambda>q. of_int q / 65536) Q16)\<rparr>
                    in if length V_mV \<noteq> length Q16
                       then (Inl (CoreDAQError LutLengthMismatch), s1, w1)
                       else (Inr (), s1, w1))))"

definition load_calibration_for_frontend ::
  "'d device \<Rightarrow> session \<Rightarrow> 'd world \<Rightarrow> (py_exception + unit) \<times> session \<times> 'd world" where
  "load_calibration_for_frontend dev s w =
     (case frontend_type s of
        LINEAR \<Rightarrow> load_linear_calibration dev s w
      | LOG \<Rightarrow> load_log_calibration dev s w)"

definition i2c_refresh :: "'d device \<Rightarrow> 'd world \<Rightarrow> (py_exception + unit) \<times> 'd world" where
  "i2c_refresh dev w =
     (case ask_cmd dev CmdI2CREFRESH w of
        ((st, payload), w1) \<Rightarrow>
          if st \<noteq> OK then (Inl (CoreDAQError (DeviceReply payload)), w1) else (Inr (), w1))"

text \<open>\<^verbatim>\<open>CoreDAQ.__init__\<close>: a session, or the exception that aborts the construction.\<close>

definition CoreDAQ_init :: "'d device \<Rightarrow> 'd \<Rightarrow> (py_exception + session) \<times> 'd world" where
  "CoreDAQ_init dev d =
     (case exchange CmdHEADTYPEQ (head_type_query dev) ([], d) of
        (Inl e, w1) \<Rightarrow> (Inl e, w1)
      | (Inr ft, w1) \<Rightarrow>
          (case i2c_refresh dev w1 of
             (Inl e, w2) \<Rightarrow> (Inl e, w2)
           | (Inr _, w2) \<Rightarrow>
               (case load_calibration_for_frontend dev (fresh_session ft) w2 of
                  (Inl e, s3, w3) \<Rightarrow> (Inl e, w3)
                | (Inr _, s3, w3) \<Rightarrow>
                    if frontend_type s3 = LINEAR then
                      (case load_factory_zeros dev s3 w3 of
                         (Inl e, s4, w4) \<Rightarrow> (Inl e, w4)
                       | (Inr _, s4, w4) \<Rightarrow> (Inr s4, w4))
                    else (Inr s3, w3))))"

subsection \<open>LOG conversion (volts to power)\<close>

text \<open>
  \<^verbatim>\<open>bisect.bisect_left(a, x)\<close> of the standard library: the loop
  \<^verbatim>\<open>while lo < hi: mid = (lo + hi) // 2; if a[mid] < x: lo = mid + 1 else: hi = mid\<close>
  started at \<open>lo = 0\<close>, \<open>hi = len(a)\<close>.
\<close>

function bisect_left_loop :: "real list \<Rightarrow> real \<Rightarrow> nat \<Rightarrow> nat \<Rightarrow> nat" where
  "bisect_left_loop a x lo hi =
     (if lo < hi
      then (if a ! ((lo + hi) div 2) < x
            then bisect_left_loop a x ((lo + hi) div 2 + 1) hi
            else bisect_left_loop a x lo ((lo + hi) div 2))
      else lo)"
  by pat_completeness auto
termination
  by (relation "measure (\<lambda>(a, x, lo, hi). hi - lo)") auto

declare bisect_left_loop.simps [simp del]

definition bisect_left :: "real list \<Rightarrow> real \<Rightarrow> nat" where
  "bisect_left a x = bisect_left_loop a x 0 (length a)"

text \<open>The local function \<^verbatim>\<open>interp_one\<close>, with \<open>xs\<close> and \<open>ys\<close> the two LUT lists.\<close>

definition interp_one :: "real list \<Rightarrow> real list \<Rightarrow> real \<Rightarrow> py_exception + real" where
  "interp_one xs ys x =
     bindE (py_get xs 0) (\<lambda>first_x.
       if x \<le> first_x then bindE (py_get ys 0) (\<lambda>y. Inr (10 powr y))
       else bindE (py_get xs (- 1)) (\<lambda>last_x.
         if x \<ge> last_x then bindE (py_get ys (- 1)) (\<lambda>y. Inr (10 powr y))
         else (let j = int (bisect_left xs x) in
           bindE (py_get xs (j - 1)) (\<lambda>x0. bindE (py_get xs j) (\<lambda>x1.
           bindE (py_get ys (j - 1)) (\<lambda>y0. bindE (py_get ys j) (\<lambda>y1.
             let y = (if x1 = x0 then y0 else y0 + ((x - x0) / (x1 - x0)) * (y1 - y0))
             in Inr (10 powr y))))))))"

datatype num_or_seq = Num real | Seq "real list"

definition voltage_to_power_W :: "session \<Rightarrow> num_or_seq \<Rightarrow> py_exception + num_or_seq" where
  "voltage_to_power_W s v_volts =
     bindE (require_frontend s LOG ''voltage_to_power_W'') (\<lambda>_.
       case (loglut_V_V s, loglut_log10P s) of
         (Some xs, Some ys) \<Rightarrow>
           (case v_volts of
              Seq vs \<Rightarrow> bindE (mapE (interp_one xs ys) vs) (\<lambda>ps. Inr (Seq ps))
            | Num v \<Rightarrow> bindE (interp_one xs ys v) (\<lambda>p. Inr (Num p)))
       | _ \<Rightarrow> Inl (CoreDAQError LutNotLoaded))"

text \<open>\<^verbatim>\<open>float(r)\<close> of a result of \<^verbatim>\<open>voltage_to_power_W\<close>.\<close>

definition float_of :: "num_or_seq \<Rightarrow> py_exception + real" where
  "float_of r = (case r of Num p \<Rightarrow> Inr p | Seq ps \<Rightarrow> Inl TypeError)"

subsection \<open>Snapshots\<close>

text \<open>
  The parameters \<^verbatim>\<open>timeout_s\<close>, \<^verbatim>\<open>poll_hz\<close> and \<^verbatim>\<open>settle_s\<close> only pace the polling and are
  left out. \<open>use_zero\<close> is the legacy keyword, \<open>None\<close> by default.
\<close>

definition snapshot_volts ::
  "'d device \<Rightarrow> session \<Rightarrow> int \<Rightarrow> bool option \<Rightarrow> 'd world
     \<Rightarrow> (py_exception + real list \<times> int list) \<times> 'd world" where
  "snapshot_volts dev s n_frames use_zero w =
     (case do_snapshot_adc dev n_frames w of
        (Inl e, w1) \<Rightarrow> (Inl e, w1)
      | (Inr (codes, gains), w1) \<Rightarrow>
          (case apply_linear_zero_ch s codes of
             Inl e \<Rightarrow> (Inl e, w1)
           | Inr codes' \<Rightarrow> (Inr (map (\<lambda>c. of_int c * ADC_LSB_VOLTS) codes', gains), w1)))"

definition snapshot_mV ::
  "'d device \<Rightarrow> session \<Rightarrow> int \<Rightarrow> bool option \<Rightarrow> 'd world
     \<Rightarrow> (py_exception + real list \<times> int list) \<times> 'd world" where
  "snapshot_mV dev s n_frames use_zero w =
     (case do_snapshot_adc dev n_frames w of
        (Inl e, w1) \<Rightarrow> (Inl e, w1)
      | (Inr (codes, gains), w1) \<Rightarrow>
          (case apply_linear_zero_ch s codes of
             Inl e \<Rightarrow> (Inl e, w1)
           | Inr codes' \<Rightarrow>
               (let lsb_mV = ADC_LSB_VOLTS * 1000;
                    mv = map (\<lambda>c. of_int c * lsb_mV) codes'
                in (Inr (map (\<lambda>x. py_round x 3) mv, gains), w1))))"

subsection \<open>Gains (LINEAR)\<close>

definition set_gain ::
  "'d device \<Rightarrow> session \<Rightarrow> int \<Rightarrow> int \<Rightarrow> 'd world \<Rightarrow> (py_exception + unit) \<times> 'd world" where
  "set_gain dev s head val w =
     (case require_frontend s LINEAR ''set_gain'' of
        Inl e \<Rightarrow> (Inl e, w)
      | Inr _ \<Rightarrow>
          if head \<notin> {1, 2, 3, 4} then (Inl (ValueError ''head must be 1..4''), w)
          else if \<not> (0 \<le> val \<and> val \<le> 7) then (Inl (ValueError ''gain value must be 0..7''), w)
          else (case ask_cmd dev (CmdGAIN head val) w of
                  ((st, payload), w1) \<Rightarrow>
                    if st \<noteq> OK then (Inl (CoreDAQError (GainFailed head payload)), w1)
                    else (Inr (), w1)))"

definition get_gains ::
  "'d device \<Rightarrow> session \<Rightarrow> 'd world \<Rightarrow> (py_exception + int list) \<times> 'd world" where
  "get_gains dev s w =
     (case require_frontend s LINEAR ''get_gains'' of
        Inl e \<Rightarrow> (Inl e, w)
      | Inr _ \<Rightarrow> exchange CmdGAINSQ (gains_query dev) w)"

subsection \<open>\<^verbatim>\<open>snapshot_W\<close>\<close>

text \<open>The body of \<^verbatim>\<open>for ch in range(4)\<close> on the LOG frontend, for one channel.\<close>

definition snapshot_W_log_ch :: "session \<Rightarrow> real \<Rightarrow> real list \<Rightarrow> int \<Rightarrow> py_exception + real" where
  "snapshot_W_log_ch s db mv ch =
     bindE (py_get mv ch) (\<lambda>mv_corr.
       if db > 0 \<and> \<bar>mv_corr\<bar> < db then Inr 0
       else (let v = mv_corr / 1000
             in bindE (voltage_to_power_W s (Num v)) float_of))"

text \<open>
  The inner \<^verbatim>\<open>for ch in range(4)\<close> of the autogain loop, from channel list \<open>chs\<close> on,
  with the flag \<open>changed\<close> so far.
\<close>

fun autogain_channels ::
  "'d device \<Rightarrow> session \<Rightarrow> real \<Rightarrow> real \<Rightarrow> real list \<Rightarrow> int list \<Rightarrow> int list \<Rightarrow> bool \<Rightarrow> 'd world
     \<Rightarrow> (py_exception + bool) \<times> 'd world" where
  "autogain_channels dev s min_mv max_mv mv_now gains [] changed w = (Inr changed, w)"
| "autogain_channels dev s min_mv max_mv mv_now gains (ch # chs) changed w =
     (case py_get mv_now ch of
        Inl e \<Rightarrow> (Inl e, w)
      | Inr m \<Rightarrow>
          (case py_get gains ch of
             Inl e \<Rightarrow> (Inl e, w)
           | Inr g \<Rightarrow>
               if \<bar>m\<bar> < min_mv \<and> g < 7 then
                 (case set_gain dev s (ch + 1) (g + 1) w of
                    (Inl e, w1) \<Rightarrow> (Inl e, w1)
                  | (Inr _, w1) \<Rightarrow>
                      autogain_channels dev s min_mv max_mv mv_now gains chs True w1)
               else if \<bar>m\<bar> > max_mv \<and> g > 0 then
                 (case set_gain dev s (ch + 1) (g - 1) w of
                    (Inl e, w1) \<Rightarrow> (Inl e, w1)
                  | (Inr _, w1) \<Rightarrow>
                      autogain_channels dev s min_mv max_mv mv_now gains chs True w1)
               else autogain_channels dev s min_mv max_mv mv_now gains chs changed w))"

text \<open>
  \<^verbatim>\<open>for _ in range(max_iters)\<close> with \<open>n\<close> iterations left; \<^verbatim>\<open>if not changed: break\<close> ends
  it early.
\<close>

fun autogain_loop ::
  "'d device \<Rightarrow> session \<Rightarrow> int \<Rightarrow> real \<Rightarrow> real \<Rightarrow> nat \<Rightarrow> 'd world \<Rightarrow> (py_exception + unit) \<times> 'd world" where
  "autogain_loop dev s n_frames min_mv max_mv 0 w = (Inr (), w)"
| "autogain_loop dev s n_frames min_mv max_mv (Suc n) w =
     (case snapshot_mV dev s n_frames None w of
        (Inl e, w1) \<Rightarrow> (Inl e, w1)
      | (Inr (mv_now, gains), w1) \<Rightarrow>
          (case autogain_channels dev s min_mv max_mv mv_now gains [0, 1, 2, 3] False w1 of
             (Inl e, w2) \<Rightarrow> (Inl e, w2)
           | (Inr changed, w2) \<Rightarrow>
               if \<not> changed then (Inr (), w2)
               else autogain_loop dev s n_frames min_mv max_mv n w2))"

text \<open>
  The statements that turn one corrected millivolt value into watts on the LINEAR
  frontend; \<^verbatim>\<open>snapshot_W\<close> and \<^verbatim>\<open>transfer_frames_W\<close> contain the same ones.
\<close>

definition power_decimals :: "real \<Rightarrow> int" where
  "power_decimals slope_mV_per_W =
     (let adc_mv_per_lsb = ADC_LSB_VOLTS * 1000;
          power_lsb = adc_mv_per_lsb / slope_mV_per_W
      in if power_lsb \<le> 0 then 0 else max 0 (min 12 (py_round_int (- log 10 power_lsb))))"

definition linear_sample_W :: "session \<Rightarrow> real \<Rightarrow> real \<Rightarrow> real \<Rightarrow> real" where
  "linear_sample_W s slope_mV_per_W intercept_mV mv_corr =
     (if \<bar>mv_corr\<bar> < mv_zero_threshold s then 0
      else (let p_w = (mv_corr - intercept_mV) / slope_mV_per_W;
                p_w = (if p_w < 0 then 0 else p_w)
            in py_round p_w (power_decimals slope_mV_per_W)))"

text \<open>The body of \<^verbatim>\<open>for ch in range(4)\<close> on the LINEAR frontend, for one channel.\<close>

definition snapshot_W_linear_ch :: "session \<Rightarrow> real list \<Rightarrow> int list \<Rightarrow> int \<Rightarrow> py_exception + real" where
  "snapshot_W_linear_ch s mv gains ch =
     bindE (py_get gains ch) (\<lambda>gain.
     bindE (bindE (py_get (cal_slope s) ch) (\<lambda>row. py_get row gain)) (\<lambda>slope_mV_per_W.
     bindE (bindE (py_get (cal_intercept s) ch) (\<lambda>row. py_get row gain)) (\<lambda>intercept_mV.
       if slope_mV_per_W = 0 then Inl (CoreDAQError (InvalidSlope (nat ch + 1) gain))
       else bindE (py_get mv ch) (\<lambda>mv_corr.
              Inr (linear_sample_W s slope_mV_per_W intercept_mV mv_corr)))))"

datatype snapshot_result = Powers "real list" | Debug "real list" "real list" "int list"

definition snapshot_W ::
  "'d device \<Rightarrow> session \<Rightarrow> int \<Rightarrow> bool option \<Rightarrow> bool \<Rightarrow> real \<Rightarrow> real \<Rightarrow> int \<Rightarrow> bool \<Rightarrow> real option
     \<Rightarrow> 'd world \<Rightarrow> (py_exception + snapshot_result) \<times> 'd world" where
  "snapshot_W dev s n_frames use_zero autogain min_mv max_mv max_iters return_debug
       deadband_override w =
     (case frontend_type s of
        LOG \<Rightarrow>
          (case snapshot_mV dev s n_frames None w of
             (Inl e, w1) \<Rightarrow> (Inl e, w1)
           | (Inr (mv, gains), w1) \<Rightarrow>
               (let db = (case deadband_override of None \<Rightarrow> log_deadband_mV s | Some d \<Rightarrow> d)
                in (bindE (mapE (snapshot_W_log_ch s db mv) [0, 1, 2, 3])
                      (\<lambda>out. Inr (Powers out)), w1)))
      | LINEAR \<Rightarrow>
          (case (if autogain then autogain_loop dev s n_frames min_mv max_mv (nat max_iters) w
                 else (Inr (), w)) of
             (Inl e, w1) \<Rightarrow> (Inl e, w1)
           | (Inr _, w1) \<Rightarrow>
               (case snapshot_mV dev s n_frames None w1 of
                  (Inl e, w2) \<Rightarrow> (Inl e, w2)
                | (Inr (mv, gains), w2) \<Rightarrow>
                    (bindE (mapE (snapshot_W_linear_ch s mv gains) [0, 1, 2, 3])
                       (\<lambda>out. Inr (if return_debug then Debug out mv gains else Powers out)),
                     w2))))"

subsection \<open>Bulk transfer\<close>

text \<open>\<^verbatim>\<open>ser.read(n)\<close> returns at most \<open>n\<close> bytes, whatever the device offers.\<close>

definition ser_read :: "'d device \<Rightarrow> nat \<Rightarrow> 'd \<Rightarrow> 8 word list \<times> 'd" where
  "ser_read dev n d = (case read dev n d of (r, d') \<Rightarrow> (take n r, d'))"

text \<open>
  \<^verbatim>\<open>while got < bytes_needed\<close>: \<open>buf\<close> is the preallocated \<^verbatim>\<open>bytearray\<close>, and
  \<^verbatim>\<open>mv[got:got + len(r)] = r\<close> overwrites the slice.
\<close>

function read_loop ::
  "'d device \<Rightarrow> nat \<Rightarrow> nat \<Rightarrow> 8 word list \<Rightarrow> 'd \<Rightarrow> (py_exception + 8 word list) \<times> 'd" where
  "read_loop dev bytes_needed got buf d =
     (if got < bytes_needed
      then (case ser_read dev (min 262144 (bytes_needed - got)) d of
              (r, d') \<Rightarrow>
                if r = [] then (Inl (TimeoutError got bytes_needed), d')
                else read_loop dev bytes_needed (got + length r)
                       (take got buf @ r @ drop (got + length r) buf) d')
      else (Inr buf, d))"
  by pat_completeness auto
termination
  by (relation "measure (\<lambda>(dev, bytes_needed, got, buf, d). bytes_needed - got)")
    (auto simp: neq_Nil_conv)

declare read_loop.simps [simp del]

text \<open>One \<^verbatim>\<open>'h'\<close> item of the array: two bytes, low byte first, read as a signed 16-bit integer.\<close>

definition le_int16 :: "8 word \<Rightarrow> 8 word \<Rightarrow> int" where
  "le_int16 lo hi = sint (push_bit 8 (ucast hi) OR ucast lo :: 16 word)"

text \<open>\<^verbatim>\<open>array('h').frombytes(buf)\<close> raises on a length that is not a multiple of the item size.\<close>

fun frombytes :: "8 word list \<Rightarrow> py_exception + int list" where
  "frombytes [] = Inr []"
| "frombytes [b] = Inl (ValueError ''bytes length not a multiple of item size'')"
| "frombytes (lo # hi # rest) =
     (case frombytes rest of Inl e \<Rightarrow> Inl e | Inr xs \<Rightarrow> Inr (le_int16 lo hi # xs))"

text \<open>The extended slice \<^verbatim>\<open>xs[start::step]\<close>.\<close>

definition slice_step :: "nat \<Rightarrow> nat \<Rightarrow> 'a list \<Rightarrow> 'a list" where
  "slice_step start step xs =
     map (\<lambda>k. xs ! (start + k * step)) [0 ..< (length xs + step - 1 - start) div step]"

definition transfer_frames_adc ::
  "'d device \<Rightarrow> int \<Rightarrow> 'd world \<Rightarrow> (py_exception + int list list) \<times> 'd world" where
  "transfer_frames_adc dev frames w =
     (if frames \<le> 0 then (Inl (ValueError ''frames must be > 0''), w)
      else (let bytes_needed = nat (frames * 4 * 2) in
        case exchange (CmdXFER bytes_needed) (xfer_line dev bytes_needed) w of
          (None, w1) \<Rightarrow> (Inl (CoreDAQError DeviceTimeout), w1)
        | (Some line, w1) \<Rightarrow>
            if take 2 line \<noteq> ''OK'' then (Inl (CoreDAQError (XferRefused line)), w1)
            else (case read_loop dev bytes_needed 0 (replicate bytes_needed 0) (snd w1) of
                    (Inl e, d2) \<Rightarrow> (Inl e, (fst w1, d2))
                  | (Inr buf, d2) \<Rightarrow>
                      (case frombytes buf of
                         Inl e \<Rightarrow> (Inl e, (fst w1, d2))
                       | Inr samples \<Rightarrow>
                           (let ch1 = slice_step 0 4 samples;
                                ch2 = slice_step 1 4 samples;
                                ch3 = slice_step 2 4 samples;
                                ch4 = slice_step 3 4 samples
                            in if int (length ch1) \<noteq> frames
                               then (Inl (CoreDAQError (ParseMismatch frames (length ch1))),
                                     (fst w1, d2))
                               else (Inr [ch1, ch2, ch3, ch4], (fst w1, d2)))))))"

definition transfer_frames_mV ::
  "'d device \<Rightarrow> session \<Rightarrow> int \<Rightarrow> bool option \<Rightarrow> real option \<Rightarrow> 'd world
     \<Rightarrow> (py_exception + real list list) \<times> 'd world" where
  "transfer_frames_mV dev s frames use_zero deadband_override w =
     (case transfer_frames_adc dev frames w of
        (Inl e, w1) \<Rightarrow> (Inl e, w1)
      | (Inr ch, w1) \<Rightarrow>
          (let lsb_mV = ADC_LSB_VOLTS * 1000 in
           case frontend_type s of
             LINEAR \<Rightarrow>
               (mapE (\<lambda>head_idx.
                   bindE (py_get (linear_zero_adc s) head_idx) (\<lambda>z.
                   bindE (py_get ch head_idx) (\<lambda>codes.
                     Inr (map (\<lambda>code. of_int (code - z) * lsb_mV) codes))))
                  [0, 1, 2, 3], w1)
           | LOG \<Rightarrow>
               (let db = (case deadband_override of None \<Rightarrow> log_deadband_mV s | Some d \<Rightarrow> d)
                in (Inr (map (\<lambda>lst.
                      let mv_list = map (\<lambda>x. of_int x * lsb_mV) lst
                      in if db > 0 then map (\<lambda>v. if \<bar>v\<bar> < db then 0 else v) mv_list
                         else mv_list) ch), w1))))"

definition transfer_frames_volts ::
  "'d device \<Rightarrow> session \<Rightarrow> int \<Rightarrow> bool option \<Rightarrow> 'd world
     \<Rightarrow> (py_exception + real list list) \<times> 'd world" where
  "transfer_frames_volts dev s frames use_zero w =
     (case transfer_frames_mV dev s frames use_zero None w of
        (Inl e, w1) \<Rightarrow> (Inl e, w1)
      | (Inr mv, w1) \<Rightarrow> (Inr (map (\<lambda>lst. map (\<lambda>x. x / 1000) lst) mv), w1))"

text \<open>The body of \<^verbatim>\<open>for ch_idx in range(4)\<close> on the LINEAR frontend, for one channel.\<close>

definition transfer_W_linear_ch ::
  "session \<Rightarrow> real list list \<Rightarrow> int list \<Rightarrow> int \<Rightarrow> py_exception + real list" where
  "transfer_W_linear_ch s mv_ch gains ch_idx =
     bindE (py_get gains ch_idx) (\<lambda>gain.
     bindE (bindE (py_get (cal_slope s) ch_idx) (\<lambda>row. py_get row gain)) (\<lambda>slope_mV_per_W.
     bindE (bindE (py_get (cal_intercept s) ch_idx) (\<lambda>row. py_get row gain)) (\<lambda>intercept_mV.
       if slope_mV_per_W = 0 then Inl (CoreDAQError (InvalidSlope (nat ch_idx + 1) gain))
       else bindE (py_get mv_ch ch_idx) (\<lambda>mv_vals.
              Inr (map (linear_sample_W s slope_mV_per_W intercept_mV) mv_vals)))))"

text \<open>The body of \<^verbatim>\<open>for ch_idx in range(4)\<close> on the LOG frontend, for one channel.\<close>

definition transfer_W_log_ch ::
  "session \<Rightarrow> real \<Rightarrow> real list list \<Rightarrow> int \<Rightarrow> py_exception + real list" where
  "transfer_W_log_ch s db v_ch ch_idx =
     bindE (py_get v_ch ch_idx) (\<lambda>vs.
       mapE (\<lambda>v. let mv_equiv = v * 1000
                 in if db > 0 \<and> \<bar>mv_equiv\<bar> < db then Inr 0
                    else bindE (voltage_to_power_W s (Num v)) float_of) vs)"

definition transfer_frames_W ::
  "'d device \<Rightarrow> session \<Rightarrow> int \<Rightarrow> bool option \<Rightarrow> real option \<Rightarrow> 'd world
     \<Rightarrow> (py_exception + real list list) \<times> 'd world" where
  "transfer_frames_W dev s frames use_zero deadband_override w =
     (if frames \<le> 0 then (Inl (ValueError ''frames must be > 0''), w)
      else case frontend_type s of
        LINEAR \<Rightarrow>
          (case transfer_frames_mV dev s frames None None w of
             (Inl e, w1) \<Rightarrow> (Inl e, w1)
           | (Inr mv_ch, w1) \<Rightarrow>
               (case get_gains dev s w1 of
                  (Inl e, w2) \<Rightarrow> (Inl e, w2)
                | (Inr gains, w2) \<Rightarrow>
                    (mapE (transfer_W_linear_ch s mv_ch gains) [0, 1, 2, 3], w2)))
      | LOG \<Rightarrow>
          (case transfer_frames_volts dev s frames None w of
             (Inl e, w1) \<Rightarrow> (Inl e, w1)
           | (Inr v_ch, w1) \<Rightarrow>
               (let db = (case deadband_override of None \<Rightarrow> log_deadband_mV s | Some d \<Rightarrow> d)
                in (mapE (transfer_W_log_ch s db v_ch) [0, 1, 2, 3], w1))))"

subsection \<open>Frequency and oversampling\<close>

datatype warning = RuntimeWarning_OsAdjusted int int int

definition max_freq_for_os :: "int \<Rightarrow> py_exception + int" where
  "max_freq_for_os os_idx =
     (if \<not> (0 \<le> os_idx \<and> os_idx \<le> 7) then Inl (ValueError ''os_idx must be 0..7'')
      else if os_idx \<le> 1 then Inr 100000
      else Inr (100000 div (2 ^ nat (os_idx - 1))))"

text \<open>The \<^verbatim>\<open>for os_idx in range(0, 8)\<close> loop of \<^verbatim>\<open>_best_os_for_freq\<close>, with its \<^verbatim>\<open>break\<close>.\<close>

fun best_os_loop :: "int \<Rightarrow> int \<Rightarrow> int list \<Rightarrow> py_exception + int" where
  "best_os_loop hz best [] = Inr best"
| "best_os_loop hz best (os_idx # rest) =
     (case max_freq_for_os os_idx of
        Inl e \<Rightarrow> Inl e
      | Inr cap \<Rightarrow> if hz \<le> cap then best_os_loop hz os_idx rest else Inr best)"

definition best_os_for_freq :: "int \<Rightarrow> py_exception + int" where
  "best_os_for_freq hz =
     (if hz \<le> 0 then Inl (ValueError ''hz must be > 0'')
      else if hz > 100000 then Inl (ValueError ''hz must be <= 100000'')
      else best_os_loop hz 0 [0, 1, 2, 3, 4, 5, 6, 7])"

definition set_freq ::
  "'d device \<Rightarrow> int \<Rightarrow> 'd world \<Rightarrow> (py_exception + warning list) \<times> 'd world" where
  "set_freq dev hz w =
     (if hz \<le> 0 \<or> hz > 100000 then (Inl (CoreDAQError FreqRange), w)
      else case ask_cmd dev (CmdFREQ hz) w of ((st, p), w1) \<Rightarrow>
        if st \<noteq> OK then (Inl (CoreDAQError (DeviceReply p)), w1)
        else case exchange CmdOSQ (get_oversampling dev) w1 of
            (Inl e, w2) \<Rightarrow> (Inl e, w2)
          | (Inr cur_os, w2) \<Rightarrow>
              (case max_freq_for_os cur_os of
                 Inl e \<Rightarrow> (Inl e, w2)
               | Inr cap \<Rightarrow>
                   if hz > cap then
                     (case best_os_for_freq hz of
                        Inl e \<Rightarrow> (Inl e, w2)
                      | Inr new_os \<Rightarrow>
                          (case ask_cmd dev (CmdOS new_os) w2 of ((st2, p2), w3) \<Rightarrow>
                             if st2 \<noteq> OK then (Inl (CoreDAQError (DeviceReply p2)), w3)
                             else (Inr [RuntimeWarning_OsAdjusted cur_os hz new_os], w3)))
                   else (Inr [], w2)))"

subsection \<open>Devices for evaluation\<close>

text \<open>A device that answers nothing: every query times out.\<close>

definition silent_device :: "'d device" where
  "silent_device =
     \<lparr> ask = (\<lambda>c d. ((ERR, ''''), d)),
       head_type_query = (\<lambda>d. (Inl (CoreDAQError DeviceTimeout), d)),
       cal_query = (\<lambda>h g d. (Inl (CoreDAQError DeviceTimeout), d)),
       logcal_query = (\<lambda>d. (Inl (CoreDAQError DeviceTimeout), d)),
       factory_zeros_query = (\<lambda>d. (Inl (CoreDAQError DeviceTimeout), d)),
       snapshot_adc = (\<lambda>n d. (Inl (CoreDAQError DeviceTimeout), d)),
       get_oversampling = (\<lambda>d. (Inl (CoreDAQError DeviceTimeout), d)),
       gains_query = (\<lambda>d. (Inl (CoreDAQError DeviceTimeout), d)),
       xfer_line = (\<lambda>n d. (None, d)),
       read = (\<lambda>n d. ([], d)) \<rparr>"

text \<open>
  A device whose state is its oversampling index: it answers \<open>OK\<close> to every command,
  stores the index of an \<^verbatim>\<open>OS n\<close> command and reports it to \<^verbatim>\<open>OS?\<close>.
\<close>

definition os_device :: "int device" where
  "os_device =
     silent_device
       \<lparr> ask := (\<lambda>c d. ((OK, ''''), (case c of CmdOS n \<Rightarrow> n | _ \<Rightarrow> d))),
         get_oversampling := (\<lambda>d. (Inr d, d)) \<rparr>"

text \<open>
  A bench device whose state is the bytes pending on the serial line. It answers \<open>OK\<close>
  to every command, reports the given codes and gains to every snapshot and the gains to
  \<^verbatim>\<open>GAINS?\<close>, accepts every \<^verbatim>\<open>XFER\<close>, and hands out the pending bytes in the order
  they are asked for.
\<close>

definition bench_device :: "int list \<Rightarrow> int list \<Rightarrow> (8 word list) device" where
  "bench_device codes gains =
     silent_device
       \<lparr> ask := (\<lambda>c d. ((OK, ''''), d)),
         snapshot_adc := (\<lambda>n d. (Inr (codes, gains), d)),
         gains_query := (\<lambda>d. (Inr gains, d)),
         xfer_line := (\<lambda>n d. (Some ''OK'', d)),
         read := (\<lambda>n d. (take n d, drop n d)) \<rparr>"

subsection \<open>Reference: log-linear interpolation, in the words of the specification\<close>

text \<open>
  The table is a list of knots (voltage, log10 of power) in ascending voltage. The
  ascending search walks the knots from the first and stops at the first neighbouring
  pair whose right voltage reaches the input.
\<close>

fun bracketing_pair :: "(real \<times> real) list \<Rightarrow> real \<Rightarrow> ((real \<times> real) \<times> (real \<times> real)) option" where
  "bracketing_pair (k0 # k1 # ks) v =
     (if v \<le> fst k1 then Some (k0, k1) else bracketing_pair (k1 # ks) v)"
| "bracketing_pair ks v = None"

text \<open>
  Below the first knot the first table value, above the last knot the last table value,
  otherwise linear interpolation of the log-power between the bracketing knots, then
  \<open>10\<close> to that power. \<open>None\<close>: the table has no knot, or no pair brackets the input.
\<close>

definition reference_log_interp :: "(real \<times> real) list \<Rightarrow> real \<Rightarrow> real option" where
  "reference_log_interp knots v =
     (if knots = [] then None
      else if v \<le> fst (hd knots) then Some (10 powr snd (hd knots))
      else if fst (last knots) \<le> v then Some (10 powr snd (last knots))
      else (case bracketing_pair knots v of
              None \<Rightarrow> None
            | Some ((x0, y0), (x1, y1)) \<Rightarrow>
                Some (10 powr (y0 + (v - x0) / (x1 - x0) * (y1 - y0)))))"

text \<open>
  A LOG session with the table of the specification's scenario: voltages 0, 1, 2 V and
  log-powers -9, -6, -3.
\<close>

definition scenario_session :: session where
  "scenario_session =
     (fresh_session LOG)\<lparr>loglut_V_V := Some [0, 1, 2], loglut_log10P := Some [- 9, - 6, - 3]\<rparr>"

text \<open>
  A LOG session whose table repeats a voltage: voltages 0, 1, 1, 2 V and log-powers
  -9, -6, -5, -3.
\<close>

definition repeated_knot_session :: session where
  "repeated_knot_session =
     (fresh_session LOG)\<lparr>loglut_V_V := Some [0, 1, 1, 2],
                          loglut_log10P := Some [- 9, - 6, - 5, - 3]\<rparr>"

text \<open>
  A bench device with a LOG head: it reports the frontend LOG and serves the given table
  records (millivolts, Q16 log-power) to \<^verbatim>\<open>LOGCAL 1\<close>.
\<close>

definition log_device :: "(int \<times> int) list \<Rightarrow> int list \<Rightarrow> (8 word list) device" where
  "log_device records codes =
     (bench_device codes [0, 0, 0, 0])
       \<lparr> head_type_query := (\<lambda>d. (Inr LOG, d)),
         logcal_query := (\<lambda>d. (Inr records, d)) \<rparr>"

subsection \<open>Reference: the LINEAR conversion, in the words of the specification\<close>



text \<open>
  LINEAR sessions for evaluation: every cell of the calibration table holds the given slope
  (mV/W) and intercept (mV).
\<close>

definition uniform_session :: "real \<Rightarrow> real \<Rightarrow> session" where
  "uniform_session slope intercept =
     (fresh_session LINEAR)
       \<lparr> cal_slope := replicate NUM_HEADS (replicate NUM_GAINS slope),
         cal_intercept := replicate NUM_HEADS (replicate NUM_GAINS intercept) \<rparr>"

text \<open>
  A LINEAR plant whose state is its four gains: \<^verbatim>\<open>GAIN h v\<close> stores \<open>v\<close> for head \<open>h\<close>,
  and a snapshot reports the code \<open>100 * 2 ^ gain\<close> on each channel together with the
  gains.
\<close>

definition plant_device :: "(int list) device" where
  "plant_device =
     silent_device
       \<lparr> ask := (\<lambda>c d. ((OK, ''''),
                   (case c of CmdGAIN h v \<Rightarrow> d[nat (h - 1) := v] | _ \<Rightarrow> d))),
         snapshot_adc := (\<lambda>n d. (Inr (map (\<lambda>g. 100 * 2 ^ nat g) d, d), d)) \<rparr>"

subsection \<open>Predicates on the commands of the autogain loop\<close>

text \<open>A \<^verbatim>\<open>GAIN\<close> command for one of the four heads with a gain in 0..7.\<close>

definition gain_in_range :: "command \<Rightarrow> bool" where
  "gain_in_range c = (\<exists>h v. c = CmdGAIN h v \<and> 1 \<le> h \<and> h \<le> 4 \<and> 0 \<le> v \<and> v \<le> 7)"

text \<open>
  The command is the step that the reading calls for on some channel: one gain step up
  when the magnitude is below the low threshold and the gain below 7, one step down when
  the magnitude is above the high threshold and the gain above 0.
\<close>

definition called_for :: "real \<Rightarrow> real \<Rightarrow> real list \<Rightarrow> int list \<Rightarrow> command \<Rightarrow> bool" where
  "called_for min_mv max_mv mv_now gains c =
     (\<exists>ch m g. py_get mv_now ch = Inr m \<and> py_get gains ch = Inr g
        \<and> ((c = CmdGAIN (ch + 1) (g + 1) \<and> \<bar>m\<bar> < min_mv \<and> g < 7)
          \<or> (c = CmdGAIN (ch + 1) (g - 1) \<and> max_mv < \<bar>m\<bar> \<and> 0 < g)))"

subsection \<open>What a transport delivers\<close>

text \<open>
  \<open>pending d\<close> is the sequence of bytes that the serial port in state \<open>d\<close> will still
  hand out before a read times out. A transport delivers them when a read of \<open>k > 0\<close>
  bytes returns a prefix of them of at most \<open>k\<close> bytes, which is empty only when none
  is pending, and leaves the rest pending. The chunks may be of any size: a port that
  returns fewer bytes than asked for and the remainder on the next read is included.
\<close>

definition delivers :: "'d device \<Rightarrow> ('d \<Rightarrow> 8 word list) \<Rightarrow> bool" where
  "delivers dev pending \<longleftrightarrow>
     (\<forall>k d. 0 < k \<longrightarrow>
        (case read dev k d of
           (c, d') \<Rightarrow> length c \<le> k \<and> c = take (length c) (pending d)
                     \<and> (c = [] \<longleftrightarrow> pending d = [])
                     \<and> pending d' = drop (length c) (pending d)))"

section \<open>Properties of the driver\<close>

subsection \<open>Frequency above the oversampling cap\<close>

lemma max_freq_for_os_values:
  "max_freq_for_os 0 = Inr 100000" "max_freq_for_os 1 = Inr 100000"
  "max_freq_for_os 2 = Inr 50000" "max_freq_for_os 3 = Inr 25000"
  "max_freq_for_os 4 = Inr 12500" "max_freq_for_os 5 = Inr 6250"
  "max_freq_for_os 6 = Inr 3125" "max_freq_for_os 7 = Inr 1562"
  by (simp_all add: max_freq_for_os_def)

lemma best_os_value:
  "0 < hz \<Longrightarrow> hz \<le> 100000 \<Longrightarrow>
   best_os_for_freq hz =
     Inr (if hz \<le> 1562 then 7 else if hz \<le> 3125 then 6 else if hz \<le> 6250 then 5
          else if hz \<le> 12500 then 4 else if hz \<le> 25000 then 3
          else if hz \<le> 50000 then 2 else 1)"
  by (simp add: best_os_for_freq_def max_freq_for_os_values)

lemma max_freq_for_os_cases:
  assumes "0 \<le> i" "i \<le> 7" "max_freq_for_os i = Inr c" "hz \<le> c"
  shows "(hz \<le> 1562 \<and> i \<le> 7) \<or> (hz \<le> 3125 \<and> i \<le> 6) \<or> (hz \<le> 6250 \<and> i \<le> 5)
     \<or> (hz \<le> 12500 \<and> i \<le> 4) \<or> (hz \<le> 25000 \<and> i \<le> 3) \<or> (hz \<le> 50000 \<and> i \<le> 2) \<or> i \<le> 1"
proof -
  from assms(1,2) have "i = 0 \<or> i = 1 \<or> i = 2 \<or> i = 3 \<or> i = 4 \<or> i = 5 \<or> i = 6 \<or> i = 7"
    by arith
  then show ?thesis
    using assms(3,4) by (elim disjE) (simp_all add: max_freq_for_os_values)
qed

text \<open>
  \<^verbatim>\<open>_best_os_for_freq\<close> returns the greatest index whose cap admits the frequency: the
  loop keeps overwriting \<open>best\<close> while the cap still admits it.
\<close>

lemma best_os_greatest:
  assumes "0 < hz" "hz \<le> 100000"
  shows "\<exists>b cap. best_os_for_freq hz = Inr b \<and> 0 \<le> b \<and> b \<le> 7 \<and> max_freq_for_os b = Inr cap
     \<and> hz \<le> cap
     \<and> (\<forall>i c. 0 \<le> i \<and> i \<le> 7 \<and> max_freq_for_os i = Inr c \<and> hz \<le> c \<longrightarrow> i \<le> b)"
proof -
  let ?b = "if hz \<le> 1562 then 7 else if hz \<le> 3125 then 6 else if hz \<le> 6250 then 5
          else if hz \<le> 12500 then 4 else if hz \<le> 25000 then 3
          else if hz \<le> 50000 then 2 else (1::int)"
  have 1: "best_os_for_freq hz = Inr ?b" by (rule best_os_value[OF assms])
  have 2: "0 \<le> ?b \<and> ?b \<le> 7" by simp
  have 3: "\<exists>cap. max_freq_for_os ?b = Inr cap \<and> hz \<le> cap"
    using assms by (simp add: max_freq_for_os_values)
  have 4: "i \<le> ?b" if "0 \<le> i" "i \<le> 7" "max_freq_for_os i = Inr c" "hz \<le> c" for i c
    using max_freq_for_os_cases[OF that] by (auto split: if_splits)
  from 1 2 3 4 show ?thesis by blast
qed

text \<open>
  C5, as stated, at its own scenario. The device reports oversampling index 6 (cap 3125 Hz)
  and the frequency is set to 10000 Hz. The claim has the driver send \<^verbatim>\<open>OS 1\<close>; the driver
  sends \<^verbatim>\<open>OS 4\<close> (cap 12500 Hz), warns, and never sends \<^verbatim>\<open>OS 1\<close>.
\<close>

theorem set_freq_scenario_selects_4_not_1:
  "fst (set_freq os_device 10000 ([], 6)) = Inr [RuntimeWarning_OsAdjusted 6 10000 4]
   \<and> fst (snd (set_freq os_device 10000 ([], 6))) = [CmdFREQ 10000, CmdOSQ, CmdOS 4]
   \<and> CmdOS 1 \<notin> set (fst (snd (set_freq os_device 10000 ([], 6))))
   \<and> max_freq_for_os 6 = Inr 3125 \<and> max_freq_for_os 4 = Inr 12500"
  by (simp add: set_freq_def ask_cmd_def exchange_def os_device_def silent_device_def
      max_freq_for_os_values best_os_value)

text \<open>
  C5, amended. When the requested frequency (1..100000 Hz) is above the cap of the
  oversampling index the device reports, and the device accepts the commands,
  \<^verbatim>\<open>set_freq\<close> sends \<^verbatim>\<open>FREQ hz\<close>, \<^verbatim>\<open>OS?\<close> and \<^verbatim>\<open>OS new_os\<close>, where \<open>new_os\<close> is the
  highest index in 0..7 whose cap is at least the frequency (the most oversampling, hence
  the lowest noise, that the frequency allows), and returns with one warning.
\<close>

theorem set_freq_above_cap_selects_highest_compatible_os:
  assumes "0 < hz" and "hz \<le> 100000"
    and "ask dev (CmdFREQ hz) d = ((OK, p), d1)"
    and "get_oversampling dev d1 = (Inr cur_os, d2)"
    and "max_freq_for_os cur_os = Inr cap" and "cap < hz"
    and "\<forall>n. fst (fst (ask dev (CmdOS n) d2)) = OK"
  shows "\<exists>new_os new_cap.
           fst (set_freq dev hz (sent, d)) = Inr [RuntimeWarning_OsAdjusted cur_os hz new_os]
         \<and> fst (snd (set_freq dev hz (sent, d))) = sent @ [CmdFREQ hz, CmdOSQ, CmdOS new_os]
         \<and> 0 \<le> new_os \<and> new_os \<le> 7 \<and> max_freq_for_os new_os = Inr new_cap \<and> hz \<le> new_cap
         \<and> (\<forall>i c. 0 \<le> i \<and> i \<le> 7 \<and> max_freq_for_os i = Inr c \<and> hz \<le> c \<longrightarrow> i \<le> new_os)"
proof -
  from best_os_greatest[OF assms(1,2)] obtain b bcap where b:
    "best_os_for_freq hz = Inr b" "0 \<le> b" "b \<le> 7" "max_freq_for_os b = Inr bcap" "hz \<le> bcap"
    "\<forall>i c. 0 \<le> i \<and> i \<le> 7 \<and> max_freq_for_os i = Inr c \<and> hz \<le> c \<longrightarrow> i \<le> b"
    by blast
  obtain st2 p2 d3 where a2: "ask dev (CmdOS b) d2 = ((st2, p2), d3)"
    by (metis surj_pair)
  with assms(7) have st2: "st2 = OK"
    by (metis fst_conv)
  have run: "set_freq dev hz (sent, d)
      = (Inr [RuntimeWarning_OsAdjusted cur_os hz b], (sent @ [CmdFREQ hz, CmdOSQ, CmdOS b], d3))"
    using assms(1-6) b(1) a2 st2
    by (simp add: set_freq_def ask_cmd_def exchange_def)
  show ?thesis
    using b(2-6) by (intro exI[of _ b] exI[of _ bcap]) (simp add: run)
qed

theorem set_freq_above_cap_witness:
  "\<exists>new_os new_cap.
     fst (set_freq os_device 10000 ([], 6)) = Inr [RuntimeWarning_OsAdjusted 6 10000 new_os]
   \<and> fst (snd (set_freq os_device 10000 ([], 6))) = [] @ [CmdFREQ 10000, CmdOSQ, CmdOS new_os]
   \<and> 0 \<le> new_os \<and> new_os \<le> 7 \<and> max_freq_for_os new_os = Inr new_cap \<and> 10000 \<le> new_cap
   \<and> (\<forall>i c. 0 \<le> i \<and> i \<le> 7 \<and> max_freq_for_os i = Inr c \<and> 10000 \<le> c \<longrightarrow> i \<le> new_os)"
  by (rule set_freq_above_cap_selects_highest_compatible_os
        [where hz = 10000 and dev = os_device and d = 6 and p = "''''" and ?d1.0 = 6
           and cur_os = 6 and ?d2.0 = 6 and cap = 3125])
     (simp_all add: os_device_def silent_device_def max_freq_for_os_values)

subsection \<open>Frontend gating\<close>

text \<open>
  C8, as stated, on a LOG session. The three zero-offset operations return normally and
  leave the session and the device untouched; none of them raises.
\<close>

theorem zero_ops_return_silently_on_LOG:
  "set_soft_zero_adc (fresh_session LOG) 836 835 834 839 = Inr (fresh_session LOG)
   \<and> restore_factory_zero silent_device (fresh_session LOG) ([], ())
       = (Inr (), fresh_session LOG, ([], ()))
   \<and> refresh_factory_zeros silent_device (fresh_session LOG) ([], ())
       = (Inr [0, 0, 0, 0], fresh_session LOG, ([], ()))"
  by (simp add: set_soft_zero_adc_def restore_factory_zero_def refresh_factory_zeros_def
      fresh_session_def)

text \<open>
  C8, amended. The operations that go through \<^verbatim>\<open>_require_frontend\<close> (\<^verbatim>\<open>set_gain\<close>,
  \<^verbatim>\<open>get_gains\<close>, \<^verbatim>\<open>soft_zero_from_snapshot\<close>, \<^verbatim>\<open>_load_factory_zeros\<close> on a LOG session,
  \<^verbatim>\<open>voltage_to_power_W\<close> on a LINEAR session) raise an error that names the feature, the
  actual frontend and the required one, before any exchange with the device and without
  changing the session. The zero-offset operations \<^verbatim>\<open>set_soft_zero_adc\<close>,
  \<^verbatim>\<open>restore_factory_zero\<close> and \<^verbatim>\<open>refresh_factory_zeros\<close> on a LOG session return
  silently: no error, no exchange, the session unchanged, and \<^verbatim>\<open>refresh_factory_zeros\<close>
  returns four zeros.
\<close>

theorem frontend_gate_raises_or_is_silent:
  assumes "frontend_type s = LOG" and "frontend_type t = LINEAR"
  shows "set_gain dev s head val w = (Inl (CoreDAQError (NotSupported ''set_gain'' LOG LINEAR)), w)
    \<and> get_gains dev s w = (Inl (CoreDAQError (NotSupported ''get_gains'' LOG LINEAR)), w)
    \<and> soft_zero_from_snapshot dev s n_frames w
        = (Inl (CoreDAQError (NotSupported ''soft_zero_from_snapshot'' LOG LINEAR)), s, w)
    \<and> load_factory_zeros dev s w
        = (Inl (CoreDAQError (NotSupported ''_load_factory_zeros'' LOG LINEAR)), s, w)
    \<and> voltage_to_power_W t v = Inl (CoreDAQError (NotSupported ''voltage_to_power_W'' LINEAR LOG))
    \<and> set_soft_zero_adc s z1 z2 z3 z4 = Inr s
    \<and> restore_factory_zero dev s w = (Inr (), s, w)
    \<and> refresh_factory_zeros dev s w = (Inr [0, 0, 0, 0], s, w)"
  using assms
  by (simp add: set_gain_def get_gains_def soft_zero_from_snapshot_def load_factory_zeros_def
      voltage_to_power_W_def set_soft_zero_adc_def restore_factory_zero_def
      refresh_factory_zeros_def require_frontend_def bindE_def)

theorem frontend_gate_witness:
  "frontend_type (fresh_session LOG) = LOG \<and> frontend_type (fresh_session LINEAR) = LINEAR
   \<and> set_gain silent_device (fresh_session LOG) 1 3 ([], ())
        = (Inl (CoreDAQError (NotSupported ''set_gain'' LOG LINEAR)), ([], ()))
   \<and> voltage_to_power_W (fresh_session LINEAR) (Num 1)
        = Inl (CoreDAQError (NotSupported ''voltage_to_power_W'' LINEAR LOG))
   \<and> refresh_factory_zeros silent_device (fresh_session LOG) ([], ())
        = (Inr [0, 0, 0, 0], fresh_session LOG, ([], ()))"
proof -
  have a: "frontend_type (fresh_session LOG) = LOG"
    and b: "frontend_type (fresh_session LINEAR) = LINEAR"
    by (simp_all add: fresh_session_def)
  from frontend_gate_raises_or_is_silent
         [OF a b, of silent_device 1 3 "([], ())" 1 "Num 1" 836 835 834 839] a b
  show ?thesis by simp
qed

subsection \<open>Zero subtraction on the LINEAR frontend\<close>

lemma py_get_4:
  assumes "length xs = 4"
  shows "py_get xs 0 = Inr (xs ! 0)" "py_get xs 1 = Inr (xs ! 1)"
    "py_get xs 2 = Inr (xs ! 2)" "py_get xs 3 = Inr (xs ! 3)"
  using assms by (simp_all add: py_get_def)

lemma apply_linear_zero_ch_LINEAR:
  assumes "frontend_type s = LINEAR" "length codes = 4" "length (linear_zero_adc s) = 4"
  shows "apply_linear_zero_ch s codes =
     Inr (map (\<lambda>i. codes ! i - linear_zero_adc s ! i) [0, 1, 2, 3])"
  using assms by (simp add: apply_linear_zero_ch_def bindE_def py_get_4)

lemma transfer_frames_adc_frames_pos:
  "transfer_frames_adc dev frames w = (Inr ch, w1) \<Longrightarrow> 0 < frames"
  by (cases "frames \<le> 0") (simp_all add: transfer_frames_adc_def)

lemma lsb_mV_value: "ADC_LSB_VOLTS * 1000 = 625 / 4096"
  by (simp add: ADC_LSB_VOLTS_def ADC_VFS_VOLTS_def ADC_BITS_def)

text \<open>
  C7. On a LINEAR session whose active zero has its four entries, with \<open>codes\<close> the four
  raw codes of the snapshot and \<open>ch\<close> the four raw channels of the transfer: the
  millivolt, volt and watt results of the snapshot and of the transfer are computed from
  \<open>code - zero\<close> per channel (\<open>mv\<close> and \<open>mv_ch\<close> below are the zero-subtracted
  millivolts, and the watts are the channel conversions applied to them), and for any
  two values \<open>u\<close>, \<open>u'\<close> of the legacy \<open>use_zero\<close> parameter each of the six
  methods returns the same result and leaves the same world.
\<close>

theorem linear_zero_always_subtracted:
  assumes "frontend_type s = LINEAR" and "length (linear_zero_adc s) = 4"
    and "snapshot_adc dev n (snd w) = (Inr (codes, gains), d1)" and "length codes = 4"
    and "transfer_frames_adc dev frames w = (Inr ch, w1)" and "length ch = 4"
    and "mv = map (\<lambda>i. py_round (of_int (codes ! i - linear_zero_adc s ! i)
                                    * (ADC_LSB_VOLTS * 1000)) 3) [0, 1, 2, 3]"
    and "mv_ch = map (\<lambda>i. map (\<lambda>code. of_int (code - linear_zero_adc s ! i)
                                    * (ADC_LSB_VOLTS * 1000)) (ch ! i)) [0, 1, 2, 3]"
  shows "snapshot_mV dev s n u w = (Inr (mv, gains), (fst w @ [CmdSNAP n], d1))
       \<and> snapshot_volts dev s n u w =
           (Inr (map (\<lambda>i. of_int (codes ! i - linear_zero_adc s ! i) * ADC_LSB_VOLTS)
                  [0, 1, 2, 3], gains),
            (fst w @ [CmdSNAP n], d1))
       \<and> snapshot_W dev s n u False min_mv max_mv max_iters dbg db w =
           (bindE (mapE (snapshot_W_linear_ch s mv gains) [0, 1, 2, 3])
              (\<lambda>out. Inr (if dbg then Debug out mv gains else Powers out)),
            (fst w @ [CmdSNAP n], d1))
       \<and> transfer_frames_mV dev s frames u db w = (Inr mv_ch, w1)
       \<and> transfer_frames_volts dev s frames u w =
           (Inr (map (\<lambda>lst. map (\<lambda>x. x / 1000) lst) mv_ch), w1)
       \<and> transfer_frames_W dev s frames u db w =
           (case get_gains dev s w1 of
              (Inl e, w2) \<Rightarrow> (Inl e, w2)
            | (Inr gains, w2) \<Rightarrow> (mapE (transfer_W_linear_ch s mv_ch gains) [0, 1, 2, 3], w2))
       \<and> snapshot_mV dev s n u w = snapshot_mV dev s n u' w
       \<and> snapshot_volts dev s n u w = snapshot_volts dev s n u' w
       \<and> snapshot_W dev s n u ag min_mv max_mv max_iters dbg db w
           = snapshot_W dev s n u' ag min_mv max_mv max_iters dbg db w
       \<and> transfer_frames_mV dev s frames u db w = transfer_frames_mV dev s frames u' db w
       \<and> transfer_frames_volts dev s frames u w = transfer_frames_volts dev s frames u' w
       \<and> transfer_frames_W dev s frames u db w = transfer_frames_W dev s frames u' db w"
proof -
  have zsub: "apply_linear_zero_ch s codes =
     Inr (map (\<lambda>i. codes ! i - linear_zero_adc s ! i) [0, 1, 2, 3])"
    by (rule apply_linear_zero_ch_LINEAR[OF assms(1,4,2)])
  have mv: "snapshot_mV dev s n u w = (Inr (mv, gains), (fst w @ [CmdSNAP n], d1))" for u
    unfolding assms(7) using assms(3) zsub
    by (simp add: snapshot_mV_def do_snapshot_adc_def exchange_def Let_def)
  have volts: "snapshot_volts dev s n u w =
           (Inr (map (\<lambda>i. of_int (codes ! i - linear_zero_adc s ! i) * ADC_LSB_VOLTS)
                  [0, 1, 2, 3], gains),
            (fst w @ [CmdSNAP n], d1))"
    using assms(3) zsub
    by (simp add: snapshot_volts_def do_snapshot_adc_def exchange_def)
  have watts: "snapshot_W dev s n u False min_mv max_mv max_iters dbg db w =
           (bindE (mapE (snapshot_W_linear_ch s mv gains) [0, 1, 2, 3])
              (\<lambda>out. Inr (if dbg then Debug out mv gains else Powers out)),
            (fst w @ [CmdSNAP n], d1))"
    using assms(1) by (simp add: snapshot_W_def mv del: mapE.simps)
  have tmv: "transfer_frames_mV dev s frames u db w = (Inr mv_ch, w1)" for u db
    unfolding assms(8) using assms(1,2,5,6)
    by (simp add: transfer_frames_mV_def bindE_def py_get_4 Let_def)
  have tv: "transfer_frames_volts dev s frames u w =
           (Inr (map (\<lambda>lst. map (\<lambda>x. x / 1000) lst) mv_ch), w1)"
    by (simp add: transfer_frames_volts_def tmv)
  have tw: "transfer_frames_W dev s frames u db w =
           (case get_gains dev s w1 of
              (Inl e, w2) \<Rightarrow> (Inl e, w2)
            | (Inr gains, w2) \<Rightarrow> (mapE (transfer_W_linear_ch s mv_ch gains) [0, 1, 2, 3], w2))"
    using assms(1) transfer_frames_adc_frames_pos[OF assms(5)]
    by (simp add: transfer_frames_W_def tmv del: mapE.simps)
  have indep: "snapshot_volts dev s n u w = snapshot_volts dev s n u' w"
    "snapshot_W dev s n u ag min_mv max_mv max_iters dbg db w
           = snapshot_W dev s n u' ag min_mv max_mv max_iters dbg db w"
    "transfer_frames_volts dev s frames u w = transfer_frames_volts dev s frames u' w"
    "transfer_frames_W dev s frames u db w = transfer_frames_W dev s frames u' db w"
    by (simp_all add: snapshot_volts_def snapshot_W_def transfer_frames_volts_def
        transfer_frames_W_def tmv del: mapE.simps)
  show ?thesis
    using mv[of u] mv[of u'] volts watts tmv[of u db] tmv[of u' db] tv tw indep
    by (simp del: mapE.simps list.map)
qed

text \<open>
  The bench device reports the codes 1836, 835, 0, -161 and holds one frame with the same
  codes; the active zero is 836, 835, 834, 839. The millivolts are those of 1000, 0,
  -834 and -1000 codes, with \<open>use_zero\<close> \<open>False\<close> as with \<open>True\<close>.
\<close>

theorem linear_zero_always_subtracted_witness:
  "snapshot_mV (bench_device [1836, 835, 0, - 161] [0, 1, 2, 3])
      ((fresh_session LINEAR)\<lparr>linear_zero_adc := [836, 835, 834, 839]\<rparr>) 1 (Some False)
      ([], [0x2C, 0x07, 0x43, 0x03, 0, 0, 0x5F, 0xFF])
     = (Inr ([152.588, 0, - 127.258, - 152.588], [0, 1, 2, 3]),
        ([CmdSNAP 1], [0x2C, 0x07, 0x43, 0x03, 0, 0, 0x5F, 0xFF]))
   \<and> snapshot_mV (bench_device [1836, 835, 0, - 161] [0, 1, 2, 3])
      ((fresh_session LINEAR)\<lparr>linear_zero_adc := [836, 835, 834, 839]\<rparr>) 1 (Some False)
      ([], [0x2C, 0x07, 0x43, 0x03, 0, 0, 0x5F, 0xFF])
     = snapshot_mV (bench_device [1836, 835, 0, - 161] [0, 1, 2, 3])
      ((fresh_session LINEAR)\<lparr>linear_zero_adc := [836, 835, 834, 839]\<rparr>) 1 (Some True)
      ([], [0x2C, 0x07, 0x43, 0x03, 0, 0, 0x5F, 0xFF])
   \<and> transfer_frames_mV (bench_device [1836, 835, 0, - 161] [0, 1, 2, 3])
      ((fresh_session LINEAR)\<lparr>linear_zero_adc := [836, 835, 834, 839]\<rparr>) 1 (Some False) None
      ([], [0x2C, 0x07, 0x43, 0x03, 0, 0, 0x5F, 0xFF])
     = (Inr [[1000 * (625 / 4096)], [0], [- 834 * (625 / 4096)], [- 1000 * (625 / 4096)]],
        ([CmdXFER 8], []))"
proof -
  let ?dev = "bench_device [1836, 835, 0, - 161] [0, 1, 2, 3]"
  let ?s = "(fresh_session LINEAR)\<lparr>linear_zero_adc := [836, 835, 834, 839]\<rparr>"
  let ?w = "([], [0x2C, 0x07, 0x43, 0x03, 0, 0, 0x5F, 0xFF]) :: (8 word list) world"
  have 1: "frontend_type ?s = LINEAR" and 2: "length (linear_zero_adc ?s) = 4"
    by (simp_all add: fresh_session_def)
  have 3: "snapshot_adc ?dev 1 (snd ?w)
      = (Inr ([1836, 835, 0, - 161], [0, 1, 2, 3]), [0x2C, 0x07, 0x43, 0x03, 0, 0, 0x5F, 0xFF])"
    by (simp add: bench_device_def silent_device_def)
  have 4: "transfer_frames_adc ?dev 1 ?w = (Inr [[1836], [835], [0], [- 161]], ([CmdXFER 8], []))"
    by (simp add: transfer_frames_adc_def exchange_def bench_device_def silent_device_def
        read_loop.simps ser_read_def slice_step_def le_int16_def)
  have 5: "length [1836, 835, 0, - 161 :: int] = 4" and 6: "length [[1836], [835], [0], [- 161 :: int]] = 4"
    by simp_all
  note inst = linear_zero_always_subtracted
    [OF 1 2 3 5 4 6 refl refl, of "Some False" 0 0 0 False None "Some True" False]
  have a: "snapshot_mV ?dev ?s 1 (Some False) ?w
        = (Inr (map (\<lambda>i. py_round (of_int ([1836, 835, 0, - 161] ! i - linear_zero_adc ?s ! i)
                                    * (ADC_LSB_VOLTS * 1000)) 3) [0, 1, 2, 3], [0, 1, 2, 3]),
           (fst ?w @ [CmdSNAP 1], [0x2C, 0x07, 0x43, 0x03, 0, 0, 0x5F, 0xFF]))"
    using inst by (elim conjE)
  have b: "snapshot_mV ?dev ?s 1 (Some False) ?w = snapshot_mV ?dev ?s 1 (Some True) ?w"
    using inst by (elim conjE)
  have c: "transfer_frames_mV ?dev ?s 1 (Some False) None ?w
        = (Inr (map (\<lambda>i. map (\<lambda>code. of_int (code - linear_zero_adc ?s ! i)
                                    * (ADC_LSB_VOLTS * 1000)) ([[1836], [835], [0], [- 161]] ! i))
                    [0, 1, 2, 3]), ([CmdXFER 8], []))"
    using inst by (elim conjE)
  have a': "snapshot_mV ?dev ?s 1 (Some False) ?w
     = (Inr ([152.588, 0, - 127.258, - 152.588], [0, 1, 2, 3]),
        ([CmdSNAP 1], [0x2C, 0x07, 0x43, 0x03, 0, 0, 0x5F, 0xFF]))"
    unfolding a
    by (simp add: lsb_mV_value py_round_def py_round_int_def Let_def fresh_session_def)
  have c': "transfer_frames_mV ?dev ?s 1 (Some False) None ?w
     = (Inr [[1000 * (625 / 4096)], [0], [- 834 * (625 / 4096)], [- 1000 * (625 / 4096)]],
        ([CmdXFER 8], []))"
    unfolding c by (simp add: lsb_mV_value fresh_session_def)
  from a' b c' show ?thesis by (intro conjI)
qed

subsection \<open>Log-linear interpolation\<close>

lemma bisect_left_loop_done: "\<not> lo < hi \<Longrightarrow> bisect_left_loop a x lo hi = lo"
  by (subst bisect_left_loop.simps) simp

lemma bisect_left_loop_go_right:
  "lo < hi \<Longrightarrow> a ! ((lo + hi) div 2) < x \<Longrightarrow>
   bisect_left_loop a x lo hi = bisect_left_loop a x ((lo + hi) div 2 + 1) hi"
  by (subst bisect_left_loop.simps) simp

lemma bisect_left_loop_go_left:
  "lo < hi \<Longrightarrow> \<not> a ! ((lo + hi) div 2) < x \<Longrightarrow>
   bisect_left_loop a x lo hi = bisect_left_loop a x lo ((lo + hi) div 2)"
  by (subst bisect_left_loop.simps) simp

lemma bisect_left_loop_bounds:
  "lo \<le> hi \<Longrightarrow> lo \<le> bisect_left_loop a x lo hi \<and> bisect_left_loop a x lo hi \<le> hi"
proof (induction a x lo hi rule: bisect_left_loop.induct)
  case (1 a x lo hi)
  show ?case
  proof (cases "lo < hi")
    case False
    with "1.prems" show ?thesis by (simp add: bisect_left_loop_done)
  next
    case True
    then have m: "lo \<le> (lo + hi) div 2" "(lo + hi) div 2 < hi" by auto
    show ?thesis
    proof (cases "a ! ((lo + hi) div 2) < x")
      case lt: True
      from "1.IH"(1)[OF True lt] m have
        "(lo + hi) div 2 + 1 \<le> bisect_left_loop a x ((lo + hi) div 2 + 1) hi
         \<and> bisect_left_loop a x ((lo + hi) div 2 + 1) hi \<le> hi" by simp
      with True lt m show ?thesis by (simp add: bisect_left_loop_go_right)
    next
      case ge: False
      from "1.IH"(2)[OF True ge] m have
        "lo \<le> bisect_left_loop a x lo ((lo + hi) div 2)
         \<and> bisect_left_loop a x lo ((lo + hi) div 2) \<le> (lo + hi) div 2" by simp
      with True ge m show ?thesis by (simp add: bisect_left_loop_go_left)
    qed
  qed
qed

lemma bisect_left_loop_left:
  "lo \<le> hi \<Longrightarrow> (0 < lo \<longrightarrow> a ! (lo - 1) < x) \<Longrightarrow>
   0 < bisect_left_loop a x lo hi \<longrightarrow> a ! (bisect_left_loop a x lo hi - 1) < x"
proof (induction a x lo hi rule: bisect_left_loop.induct)
  case (1 a x lo hi)
  show ?case
  proof (cases "lo < hi")
    case False
    with "1.prems" show ?thesis by (simp add: bisect_left_loop_done)
  next
    case True
    then have m: "lo \<le> (lo + hi) div 2" "(lo + hi) div 2 < hi" by auto
    show ?thesis
    proof (cases "a ! ((lo + hi) div 2) < x")
      case lt: True
      from "1.IH"(1)[OF True lt] m lt have
        "0 < bisect_left_loop a x ((lo + hi) div 2 + 1) hi \<longrightarrow>
           a ! (bisect_left_loop a x ((lo + hi) div 2 + 1) hi - 1) < x" by simp
      with True lt show ?thesis by (simp add: bisect_left_loop_go_right)
    next
      case ge: False
      from "1.IH"(2)[OF True ge] m "1.prems"(2) have
        "0 < bisect_left_loop a x lo ((lo + hi) div 2) \<longrightarrow>
           a ! (bisect_left_loop a x lo ((lo + hi) div 2) - 1) < x" by simp
      with True ge show ?thesis by (simp add: bisect_left_loop_go_left)
    qed
  qed
qed

lemma bisect_left_loop_right:
  "lo \<le> hi \<Longrightarrow> (hi < n \<longrightarrow> x \<le> a ! hi) \<Longrightarrow>
   bisect_left_loop a x lo hi < n \<longrightarrow> x \<le> a ! (bisect_left_loop a x lo hi)"
proof (induction a x lo hi rule: bisect_left_loop.induct)
  case (1 a x lo hi)
  show ?case
  proof (cases "lo < hi")
    case False
    with "1.prems" show ?thesis by (simp add: bisect_left_loop_done)
  next
    case True
    then have m: "lo \<le> (lo + hi) div 2" "(lo + hi) div 2 < hi" by auto
    show ?thesis
    proof (cases "a ! ((lo + hi) div 2) < x")
      case lt: True
      from "1.IH"(1)[OF True lt] m "1.prems"(2) have
        "bisect_left_loop a x ((lo + hi) div 2 + 1) hi < n \<longrightarrow>
           x \<le> a ! (bisect_left_loop a x ((lo + hi) div 2 + 1) hi)" by simp
      with True lt show ?thesis by (simp add: bisect_left_loop_go_right)
    next
      case ge: False
      from "1.IH"(2)[OF True ge] m ge have
        "bisect_left_loop a x lo ((lo + hi) div 2) < n \<longrightarrow>
           x \<le> a ! (bisect_left_loop a x lo ((lo + hi) div 2))" by simp
      with True ge show ?thesis by (simp add: bisect_left_loop_go_left)
    qed
  qed
qed

text \<open>What \<^verbatim>\<open>bisect_left\<close> finds, on any list.\<close>

lemma bisect_left_spec:
  "bisect_left a x \<le> length a"
  "0 < bisect_left a x \<Longrightarrow> a ! (bisect_left a x - 1) < x"
  "bisect_left a x < length a \<Longrightarrow> x \<le> a ! (bisect_left a x)"
  using bisect_left_loop_bounds[of 0 "length a" a x]
    bisect_left_loop_left[of 0 "length a" a x]
    bisect_left_loop_right[of 0 "length a" "length a" x a]
  by (simp_all add: bisect_left_def)

lemma bisect_left_interior:
  assumes "a \<noteq> []" "a ! 0 < x" "x < last a"
  shows "0 < bisect_left a x" "bisect_left a x < length a"
    "a ! (bisect_left a x - 1) < x" "x \<le> a ! (bisect_left a x)"
proof -
  show pos: "0 < bisect_left a x"
  proof (rule ccontr)
    assume "\<not> 0 < bisect_left a x"
    then have z: "bisect_left a x = 0" by simp
    with assms(1) bisect_left_spec(3)[of a x] have "x \<le> a ! 0" by simp
    with assms(2) show False by simp
  qed
  show lt: "bisect_left a x < length a"
  proof (rule ccontr)
    assume "\<not> bisect_left a x < length a"
    with bisect_left_spec(1)[of a x] have e: "bisect_left a x = length a" by simp
    with assms(1) bisect_left_spec(2)[of a x] have "a ! (length a - 1) < x" by simp
    with assms(1,3) show False by (simp add: last_conv_nth)
  qed
  from pos show "a ! (bisect_left a x - 1) < x" by (rule bisect_left_spec(2))
  from lt show "x \<le> a ! (bisect_left a x)" by (rule bisect_left_spec(3))
qed


lemma py_get_first: "xs \<noteq> [] \<Longrightarrow> py_get xs 0 = Inr (xs ! 0)"
  by (simp add: py_get_def)

lemma py_get_last: "xs \<noteq> [] \<Longrightarrow> py_get xs (- 1) = Inr (last xs)"
  by (cases xs rule: rev_cases) (simp_all add: py_get_def nat_diff_distrib' nth_append)

lemma py_get_nat: "i < length xs \<Longrightarrow> py_get xs (int i) = Inr (xs ! i)"
  by (simp add: py_get_def)

lemma py_get_pred: "0 < i \<Longrightarrow> i \<le> length xs \<Longrightarrow> py_get xs (int i - 1) = Inr (xs ! (i - 1))"
  using py_get_nat[of "i - 1" xs] by (simp add: of_nat_diff)

text \<open>
  \<^verbatim>\<open>interp_one\<close> never raises on a table with a knot and as many log-powers as
  voltages, sorted or not.
\<close>

lemma interp_one_value:
  assumes "xs \<noteq> []" "length ys = length xs"
  shows "interp_one xs ys x =
     Inr (10 powr (if x \<le> xs ! 0 then ys ! 0
                   else if last xs \<le> x then last ys
                   else (let j = bisect_left xs x
                         in if xs ! j = xs ! (j - 1) then ys ! (j - 1)
                            else ys ! (j - 1) + (x - xs ! (j - 1)) / (xs ! j - xs ! (j - 1))
                                   * (ys ! j - ys ! (j - 1)))))"
proof -
  from assms have ys: "ys \<noteq> []" by auto
  show ?thesis
  proof (cases "x \<le> xs ! 0")
    case True
    with assms ys show ?thesis
      by (simp add: interp_one_def bindE_def py_get_first)
  next
    case False
    show ?thesis
    proof (cases "last xs \<le> x")
      case True
      with False assms ys show ?thesis
        by (simp add: interp_one_def bindE_def py_get_first py_get_last)
    next
      case nlast: False
      from False nlast have in1: "xs ! 0 < x" "x < last xs" by simp_all
      note j = bisect_left_interior[OF assms(1) in1]
      from j(1,2) assms(2) have gets:
        "py_get xs (int (bisect_left xs x) - 1) = Inr (xs ! (bisect_left xs x - 1))"
        "py_get xs (int (bisect_left xs x)) = Inr (xs ! bisect_left xs x)"
        "py_get ys (int (bisect_left xs x) - 1) = Inr (ys ! (bisect_left xs x - 1))"
        "py_get ys (int (bisect_left xs x)) = Inr (ys ! bisect_left xs x)"
        by (simp_all add: py_get_pred py_get_nat)
      from False nlast assms ys show ?thesis
        by (simp add: interp_one_def bindE_def py_get_first py_get_last gets Let_def)
    qed
  qed
qed

lemma bracketing_pair_nth:
  assumes "0 < j" "j < length ks" "v \<le> fst (ks ! j)" "\<forall>i. 0 < i \<and> i < j \<longrightarrow> fst (ks ! i) < v"
  shows "bracketing_pair ks v = Some (ks ! (j - 1), ks ! j)"
  using assms
proof (induction ks v arbitrary: j rule: bracketing_pair.induct)
  case (1 k0 k1 ks v)
  show ?case
  proof (cases "v \<le> fst k1")
    case True
    have "j = 1"
    proof (rule ccontr)
      assume "j \<noteq> 1"
      with "1.prems"(1) have "0 < (1::nat) \<and> 1 < j" by simp
      with "1.prems"(4) have "fst ((k0 # k1 # ks) ! 1) < v" by blast
      with True show False by simp
    qed
    with True show ?thesis by simp
  next
    case False
    with "1.prems"(1,3) have j2: "1 < j" by (cases "j = 1") auto
    have "bracketing_pair (k1 # ks) v = Some ((k1 # ks) ! (j - 1 - 1), (k1 # ks) ! (j - 1))"
    proof (rule "1.IH"[OF False])
      show "0 < j - 1" using j2 by simp
      show "j - 1 < length (k1 # ks)" using "1.prems"(2) j2 by simp
      show "v \<le> fst ((k1 # ks) ! (j - 1))" using "1.prems"(3) j2 by (simp add: nth_Cons')
      show "\<forall>i. 0 < i \<and> i < j - 1 \<longrightarrow> fst ((k1 # ks) ! i) < v"
      proof (intro allI impI)
        fix i assume "0 < i \<and> i < j - 1"
        then have "0 < Suc i \<and> Suc i < j" by auto
        with "1.prems"(4) have "fst ((k0 # k1 # ks) ! Suc i) < v" by blast
        then show "fst ((k1 # ks) ! i) < v" by simp
      qed
    qed
    with False j2 show ?thesis by (simp add: nth_Cons')
  qed
qed simp_all


lemma sorted_before_bisect:
  assumes "sorted xs" "0 < j" "j < length xs" "xs ! (j - 1) < v" "0 < i \<and> i < j"
  shows "xs ! i < v"
proof -
  from assms(2,3,5) have "i \<le> j - 1" "j - 1 < length xs" by auto
  with assms(1) have "xs ! i \<le> xs ! (j - 1)" by (rule sorted_nth_mono)
  with assms(4) show ?thesis by simp
qed

lemma interp_one_refines_reference:
  assumes "xs \<noteq> []" "length ys = length xs" "sorted xs"
  shows "\<exists>p. interp_one xs ys v = Inr p \<and> reference_log_interp (zip xs ys) v = Some p"
proof -
  from assms have ys: "ys \<noteq> []" by auto
  from assms(1) ys have z: "zip xs ys \<noteq> []" by (cases xs; cases ys) simp_all
  from assms(1) ys have hd_z: "hd (zip xs ys) = (xs ! 0, ys ! 0)"
    by (cases xs; cases ys) simp_all
  from assms(1,2) ys have last_z: "last (zip xs ys) = (last xs, last ys)"
    by (simp add: last_conv_nth z)
  show ?thesis
  proof (cases "v \<le> xs ! 0 \<or> last xs \<le> v")
    case True
    with assms(1) ys show ?thesis
      by (auto simp: interp_one_value[OF assms(1,2)] reference_log_interp_def hd_z last_z)
  next
    case False
    then have in1: "xs ! 0 < v" "v < last xs" by simp_all
    note j = bisect_left_interior[OF assms(1) in1]
    let ?j = "bisect_left xs v"
    have "bracketing_pair (zip xs ys) v = Some (zip xs ys ! (?j - 1), zip xs ys ! ?j)"
    proof (rule bracketing_pair_nth[OF j(1)])
      show "?j < length (zip xs ys)" using j(2) assms(2) by simp
      show "v \<le> fst (zip xs ys ! ?j)" using j(2,4) assms(2) by simp
      show "\<forall>i. 0 < i \<and> i < ?j \<longrightarrow> fst (zip xs ys ! i) < v"
        using sorted_before_bisect[OF assms(3) j(1,2,3)] j(2) assms(2) by simp
    qed
    with j(1,2) assms(2) have br:
      "bracketing_pair (zip xs ys) v = Some ((xs ! (?j - 1), ys ! (?j - 1)), (xs ! ?j, ys ! ?j))"
      by simp
    from j(3,4) have ne: "xs ! ?j \<noteq> xs ! (?j - 1)" by simp
    from False ne assms(1) ys show ?thesis
      by (simp add: interp_one_value[OF assms(1,2)] reference_log_interp_def hd_z last_z br
          Let_def)
  qed
qed

lemma interp_one_at_knot:
  assumes "xs \<noteq> []" "length ys = length xs" "sorted xs" "k < length xs"
  shows "\<exists>j<length xs. xs ! j = xs ! k
           \<and> (if xs ! 0 < xs ! k \<and> xs ! k = last xs then j = length xs - 1
               else (\<forall>i<j. xs ! i < xs ! k))
           \<and> interp_one xs ys (xs ! k) = Inr (10 powr (ys ! j))"
proof -
  from assms have ys: "ys \<noteq> []" by auto
  let ?n = "length xs"
  have first_le: "xs ! 0 \<le> xs ! k" using assms(3,4) by (simp add: sorted_nth_mono)
  have le_last: "xs ! k \<le> last xs"
    using assms(1,3,4) by (simp add: last_conv_nth sorted_nth_mono)
  show ?thesis
  proof (cases "xs ! k \<le> xs ! 0")
    case True
    with first_le have "xs ! 0 = xs ! k" by simp
    with True assms(1) show ?thesis
      by (intro exI[of _ 0]) (simp add: interp_one_value[OF assms(1,2)])
  next
    case False
    show ?thesis
    proof (cases "last xs \<le> xs ! k")
      case True
      with le_last have "xs ! (?n - 1) = xs ! k" using assms(1) by (simp add: last_conv_nth)
      with True False assms(1,2) ys show ?thesis
        by (intro exI[of _ "?n - 1"]) (simp add: interp_one_value[OF assms(1,2)] last_conv_nth)
    next
      case nlast: False
      from False nlast have in1: "xs ! 0 < xs ! k" "xs ! k < last xs" by simp_all
      note j = bisect_left_interior[OF assms(1) in1]
      let ?j = "bisect_left xs (xs ! k)"
      have "?j \<le> k"
      proof (rule ccontr)
        assume "\<not> ?j \<le> k"
        then have "k \<le> ?j - 1" "?j - 1 < ?n" using j(2) by simp_all
        with assms(3) have "xs ! k \<le> xs ! (?j - 1)" by (rule sorted_nth_mono)
        with j(3) show False by simp
      qed
      with assms(3,4) have "xs ! ?j \<le> xs ! k" by (simp add: sorted_nth_mono)
      with j(4) have eq: "xs ! ?j = xs ! k" by simp
      from j(3) eq have ne: "xs ! ?j \<noteq> xs ! (?j - 1)" by simp
      from ne eq have one: "(xs ! k - xs ! (?j - 1)) / (xs ! ?j - xs ! (?j - 1)) = 1" by simp
      have before: "xs ! i < xs ! k" if "i < ?j" for i
      proof -
        from that j(2) have "i \<le> ?j - 1" "?j - 1 < ?n" by simp_all
        with assms(3) have "xs ! i \<le> xs ! (?j - 1)" by (rule sorted_nth_mono)
        with j(3) show ?thesis by simp
      qed
      from nlast have nl: "xs ! k \<noteq> last xs" by simp
      from False nlast ne eq one j(2) before nl show ?thesis
        by (intro exI[of _ ?j]) (simp add: interp_one_value[OF assms(1,2)] Let_def)
    qed
  qed
qed

lemma mapE_total: "(\<And>x. x \<in> set xs \<Longrightarrow> f x = Inr (g x)) \<Longrightarrow> mapE f xs = Inr (map g xs)"
  by (induction xs) simp_all


text \<open>
  C1, as stated, on a table with a repeated voltage. The voltages 0, 1, 1, 2 are ascending
  and the knots at 1 V hold the log-powers -6 and -5. Queried at the voltage of the
  second of them (index 2), \<^verbatim>\<open>voltage_to_power_W\<close> returns \<open>10 powr -6\<close>, the power of
  the first, and not \<open>10 powr -5\<close>, that knot's power.
\<close>

lemma bisect_left_repeated: "bisect_left [0, 1, 1, 2] 1 = 1"
proof -
  have "bisect_left_loop [0, 1, 1, 2] 1 0 4 = bisect_left_loop [0, 1, 1, 2] 1 0 2"
    by (subst bisect_left_loop_go_left) simp_all
  also have "\<dots> = bisect_left_loop [0, 1, 1, 2] 1 0 1"
    by (subst bisect_left_loop_go_left) simp_all
  also have "\<dots> = bisect_left_loop [0, 1, 1, 2] 1 1 1"
    by (subst bisect_left_loop_go_right) simp_all
  also have "\<dots> = 1"
    by (rule bisect_left_loop_done) simp
  finally have "bisect_left_loop [0, 1, 1, 2] 1 0 4 = 1" .
  moreover have "length [0, 1, 1, 2 :: real] = 4" by simp
  ultimately show ?thesis unfolding bisect_left_def by (simp only:)
qed

lemma powr_minus_6_5: "(10 :: real) powr (- 6) \<noteq> 10 powr (- 5)"
  by (simp add: powr_inj)

theorem knot_of_repeated_voltage_returns_first_power:
  "sorted [0, 1, 1, 2 :: real]
   \<and> voltage_to_power_W repeated_knot_session (Num ([0, 1, 1, 2] ! 2)) = Inr (Num (10 powr (- 6)))
   \<and> [- 9, - 6, - 5, - 3 :: real] ! 2 = - 5
   \<and> (10 :: real) powr (- 6) \<noteq> 10 powr (- 5)"
proof -
  have "voltage_to_power_W repeated_knot_session (Num ([0, 1, 1, 2] ! 2))
      = Inr (Num (10 powr (- 6)))"
    by (simp add: voltage_to_power_W_def require_frontend_def bindE_def
        repeated_knot_session_def fresh_session_def interp_one_def py_get_def
        bisect_left_repeated)
  with powr_minus_6_5 show ?thesis by simp
qed

text \<open>
  C1, amended. On a LOG session whose table is loaded, has a knot, as many log-powers as
  voltages, and ascending voltages (equal neighbours allowed): \<^verbatim>\<open>voltage_to_power_W\<close>
  returns, for a number and for a list, and what it returns is the reference log-linear
  interpolation over the knots. Queried at the voltage of a knot it returns \<open>10\<close> to the
  log-power of the first knot with that voltage, or of the last knot of the table when
  the voltage is the last one and above the first. So it returns the power of the queried
  knot whenever no other knot has its voltage, and at every knot when the voltages are
  distinct (strictly ascending). The witness is the scenario: voltages 0, 1, 2,
  log-powers -9, -6, -3, input 0.5 gives \<open>10 powr -7.5\<close>, and the knot at 1 V gives
  \<open>10 powr -6\<close>.
\<close>

theorem voltage_to_power_W_log_linear:
  assumes "frontend_type s = LOG" and "loglut_V_V s = Some xs" and "loglut_log10P s = Some ys"
    and "xs \<noteq> []" and "length ys = length xs" and "sorted xs"
  shows "(\<exists>p. voltage_to_power_W s (Num v) = Inr (Num p)
              \<and> reference_log_interp (zip xs ys) v = Some p)
       \<and> (\<exists>ps. voltage_to_power_W s (Seq vs) = Inr (Seq ps)
              \<and> map (reference_log_interp (zip xs ys)) vs = map Some ps)
       \<and> (\<forall>k<length xs. \<exists>j<length xs. xs ! j = xs ! k
              \<and> (if xs ! 0 < xs ! k \<and> xs ! k = last xs then j = length xs - 1
                  else (\<forall>i<j. xs ! i < xs ! k))
              \<and> voltage_to_power_W s (Num (xs ! k)) = Inr (Num (10 powr (ys ! j))))
       \<and> (\<forall>k<length xs. (\<forall>j<length xs. xs ! j = xs ! k \<longrightarrow> j = k)
              \<longrightarrow> voltage_to_power_W s (Num (xs ! k)) = Inr (Num (10 powr (ys ! k))))
       \<and> (distinct xs \<longrightarrow>
            (\<forall>k<length xs. voltage_to_power_W s (Num (xs ! k)) = Inr (Num (10 powr (ys ! k)))))"
proof -
  have num: "voltage_to_power_W s (Num x) = bindE (interp_one xs ys x) (\<lambda>p. Inr (Num p))" for x
    using assms(1-3) by (simp add: voltage_to_power_W_def require_frontend_def bindE_def)
  have seq: "voltage_to_power_W s (Seq vs)
      = bindE (mapE (interp_one xs ys) vs) (\<lambda>ps. Inr (Seq ps))"
    using assms(1-3) by (simp add: voltage_to_power_W_def require_frontend_def bindE_def)
  note ref = interp_one_refines_reference[OF assms(4-6)]
  have 1: "\<exists>p. voltage_to_power_W s (Num v) = Inr (Num p)
              \<and> reference_log_interp (zip xs ys) v = Some p"
    using ref[of v] by (auto simp: num bindE_def)
  define g where "g x = the (reference_log_interp (zip xs ys) x)" for x
  have g: "interp_one xs ys x = Inr (g x)" "reference_log_interp (zip xs ys) x = Some (g x)" for x
    using ref[of x] by (auto simp: g_def)
  have "mapE (interp_one xs ys) vs = Inr (map g vs)"
    by (rule mapE_total) (rule g(1))
  then have 2: "\<exists>ps. voltage_to_power_W s (Seq vs) = Inr (Seq ps)
              \<and> map (reference_log_interp (zip xs ys)) vs = map Some ps"
    by (intro exI[of _ "map g vs"]) (simp add: seq bindE_def g(2))
  have 3: "\<exists>j<length xs. xs ! j = xs ! k
              \<and> (if xs ! 0 < xs ! k \<and> xs ! k = last xs then j = length xs - 1
                  else (\<forall>i<j. xs ! i < xs ! k))
              \<and> voltage_to_power_W s (Num (xs ! k)) = Inr (Num (10 powr (ys ! j)))"
    if "k < length xs" for k
  proof -
    from interp_one_at_knot[OF assms(4-6) that] obtain j where
      j: "j < length xs" "xs ! j = xs ! k"
        "if xs ! 0 < xs ! k \<and> xs ! k = last xs then j = length xs - 1
         else (\<forall>i<j. xs ! i < xs ! k)"
        "interp_one xs ys (xs ! k) = Inr (10 powr (ys ! j))"
      by blast
    from j(4) have "voltage_to_power_W s (Num (xs ! k)) = Inr (Num (10 powr (ys ! j)))"
      by (simp add: num bindE_def)
    with j(1,2,3) show ?thesis by blast
  qed
  have 4: "voltage_to_power_W s (Num (xs ! k)) = Inr (Num (10 powr (ys ! k)))"
    if "k < length xs" "\<forall>j<length xs. xs ! j = xs ! k \<longrightarrow> j = k" for k
    using 3[OF that(1)] that(2) by auto
  have 5: "voltage_to_power_W s (Num (xs ! k)) = Inr (Num (10 powr (ys ! k)))"
    if d: "distinct xs" and k: "k < length xs" for k
  proof (rule 4[OF k])
    from d k show "\<forall>j<length xs. xs ! j = xs ! k \<longrightarrow> j = k"
      by (simp add: nth_eq_iff_index_eq)
  qed
  from 1 2 3 4 5 show ?thesis by blast
qed

lemma scenario_reference:
  "reference_log_interp (zip [0, 1, 2] [- 9, - 6, - 3]) (1 / 2) = Some (10 powr (- 15 / 2))"
  by (simp add: reference_log_interp_def)

theorem voltage_to_power_W_log_linear_witness:
  "frontend_type scenario_session = LOG \<and> sorted [0, 1, 2 :: real]
   \<and> distinct [0, 1, 2 :: real]
   \<and> voltage_to_power_W scenario_session (Num (1 / 2)) = Inr (Num (10 powr (- 15 / 2)))
   \<and> voltage_to_power_W scenario_session (Num 1) = Inr (Num (10 powr (- 6)))"
proof -
  have h: "frontend_type scenario_session = LOG"
    "loglut_V_V scenario_session = Some [0, 1, 2]"
    "loglut_log10P scenario_session = Some [- 9, - 6, - 3]"
    "[0, 1, 2 :: real] \<noteq> []" "length [- 9, - 6, - 3 :: real] = length [0, 1, 2 :: real]"
    "sorted [0, 1, 2 :: real]"
    by (simp_all add: scenario_session_def fresh_session_def)
  have d: "distinct [0, 1, 2 :: real]" by simp
  note inst = voltage_to_power_W_log_linear[OF h, of "1 / 2" "[]"]
  from inst have "\<exists>p. voltage_to_power_W scenario_session (Num (1 / 2)) = Inr (Num p)
      \<and> reference_log_interp (zip [0, 1, 2] [- 9, - 6, - 3]) (1 / 2) = Some p"
    by (elim conjE)
  then have a: "voltage_to_power_W scenario_session (Num (1 / 2)) = Inr (Num (10 powr (- 15 / 2)))"
    unfolding scenario_reference by auto
  from inst have "distinct [0, 1, 2 :: real] \<longrightarrow>
      (\<forall>k<length [0, 1, 2 :: real].
         voltage_to_power_W scenario_session (Num ([0, 1, 2] ! k))
            = Inr (Num (10 powr ([- 9, - 6, - 3] ! k))))"
    by (elim conjE)
  with d have "\<forall>k<length [0, 1, 2 :: real].
         voltage_to_power_W scenario_session (Num ([0, 1, 2] ! k))
            = Inr (Num (10 powr ([- 9, - 6, - 3] ! k)))"
    by (rule rev_mp)
  then have b: "voltage_to_power_W scenario_session (Num 1) = Inr (Num (10 powr (- 6)))"
    by (simp add: All_less_Suc)
  from h(1,6) d a b show ?thesis by (intro conjI)
qed

subsection \<open>The LOG deadband\<close>

lemma mapE_Inr_nth:
  "mapE f xs = Inr ys \<Longrightarrow> length ys = length xs \<and> (\<forall>i<length xs. f (xs ! i) = Inr (ys ! i))"
proof (induction xs arbitrary: ys)
  case Nil
  then show ?case by simp
next
  case (Cons x xs)
  from Cons.prems obtain y ys' where y: "f x = Inr y" "mapE f xs = Inr ys'" "ys = y # ys'"
    by (auto split: sum.splits)
  from Cons.IH[OF y(2)] y(1,3) show ?case
    by (auto simp: nth_Cons')
qed

lemma four_cases: "c < 4 \<Longrightarrow> c = 0 \<or> c = 1 \<or> c = 2 \<or> c = (3::nat)"
  by arith

lemma nth_0123: "c < 4 \<Longrightarrow> [0, 1, 2, 3 :: int] ! c = int c"
  using four_cases[of c] by auto

lemma mapE_0123_nth:
  assumes "mapE f [0, 1, 2, 3 :: int] = Inr ys" "c < 4"
  shows "f (int c) = Inr (ys ! c)"
proof -
  from assms(1) obtain y0 y1 y2 y3 where
    "f 0 = Inr y0" "f 1 = Inr y1" "f 2 = Inr y2" "f 3 = Inr y3" "ys = [y0, y1, y2, y3]"
    by (auto split: sum.splits)
  with four_cases[OF assms(2)] show ?thesis by auto
qed

lemma in_set_0123: "x \<in> set [0, 1, 2, 3 :: int] \<Longrightarrow> \<exists>c<4. x = int c"
proof -
  assume "x \<in> set [0, 1, 2, 3 :: int]"
  then consider "x = int 0" | "x = int 1" | "x = int 2" | "x = int 3" by auto
  then show ?thesis
  proof cases
    case 1 then show ?thesis by (intro exI[of _ 0]) simp
  next
    case 2 then show ?thesis by (intro exI[of _ 1]) simp
  next
    case 3 then show ?thesis by (intro exI[of _ 2]) simp
  next
    case 4 then show ?thesis by (intro exI[of _ 3]) simp
  qed
qed

text \<open>In the deadband the channel body gives 0 without looking at the table.\<close>
lemma abs_less_pos: "\<bar>x :: real\<bar> < db \<Longrightarrow> 0 < db"
  by linarith

lemma snapshot_W_log_ch_deadband:
  "c < length mv \<Longrightarrow> \<bar>mv ! c\<bar> < db \<Longrightarrow> snapshot_W_log_ch s db mv (int c) = Inr 0"
  using abs_less_pos[of "mv ! c" db]
  by (simp add: snapshot_W_log_ch_def bindE_def py_get_nat)

lemma transfer_W_log_ch_nth:
  assumes "c < length v_ch" "transfer_W_log_ch s db v_ch (int c) = Inr ps" "i < length (v_ch ! c)"
    "\<bar>v_ch ! c ! i * 1000\<bar> < db"
  shows "ps ! i = 0"
proof -
  from assms(1,2) have "mapE (\<lambda>v. let mv_equiv = v * 1000
                 in if db > 0 \<and> \<bar>mv_equiv\<bar> < db then Inr 0
                    else bindE (voltage_to_power_W s (Num v)) float_of) (v_ch ! c) = Inr ps"
    by (simp add: transfer_W_log_ch_def bindE_def py_get_nat)
  from mapE_Inr_nth[OF this] assms(3,4) abs_less_pos[OF assms(4)] show ?thesis
    by (auto simp: Let_def)
qed

lemma transfer_W_log_ch_all_deadband:
  assumes "c < length v_ch" "\<forall>v\<in>set (v_ch ! c). \<bar>v * 1000\<bar> < db"
  shows "transfer_W_log_ch s db v_ch (int c) = Inr (map (\<lambda>v. 0) (v_ch ! c))"
proof -
  have "mapE (\<lambda>v. let mv_equiv = v * 1000
                 in if db > 0 \<and> \<bar>mv_equiv\<bar> < db then Inr 0
                    else bindE (voltage_to_power_W s (Num v)) float_of) (v_ch ! c)
        = Inr (map (\<lambda>v. 0) (v_ch ! c))"
    using assms(2) by (intro mapE_total) (auto simp: Let_def dest: abs_less_pos)
  with assms(1) show ?thesis
    by (simp add: transfer_W_log_ch_def bindE_def py_get_nat)
qed


lemma snapshot_mV_LOG:
  assumes "frontend_type s = LOG" "snapshot_adc dev n (snd w) = (Inr (codes, gains), d1)"
  shows "snapshot_mV dev s n u w =
     (Inr (map (\<lambda>c. py_round (of_int c * (ADC_LSB_VOLTS * 1000)) 3) codes, gains),
      (fst w @ [CmdSNAP n], d1))"
  using assms
  by (simp add: snapshot_mV_def do_snapshot_adc_def exchange_def apply_linear_zero_ch_def Let_def
      comp_def)

lemma snapshot_W_LOG:
  assumes "frontend_type s = LOG" "snapshot_adc dev n (snd w) = (Inr (codes, gains), d1)"
    "db = (case override of None \<Rightarrow> log_deadband_mV s | Some d \<Rightarrow> d)"
    "mv = map (\<lambda>c. py_round (of_int c * (ADC_LSB_VOLTS * 1000)) 3) codes"
  shows "snapshot_W dev s n u ag lo hi iters dbg override w =
     (bindE (mapE (snapshot_W_log_ch s db mv) [0, 1, 2, 3]) (\<lambda>out. Inr (Powers out)),
      (fst w @ [CmdSNAP n], d1))"
  unfolding assms(3,4) using assms(1)
  by (simp add: snapshot_W_def snapshot_mV_LOG[OF assms(1,2)] Let_def del: mapE.simps)

text \<open>The volts that the LOG transfer hands to the watt conversion.\<close>
lemma transfer_frames_volts_LOG:
  assumes "frontend_type s = LOG" "transfer_frames_adc dev frames w = (Inr ch, w1)"
  shows "transfer_frames_volts dev s frames u w =
     (Inr (map (\<lambda>lst. map (\<lambda>x.
             (if 0 < log_deadband_mV s \<and> \<bar>of_int x * (ADC_LSB_VOLTS * 1000)\<bar> < log_deadband_mV s
              then 0 else of_int x * (ADC_LSB_VOLTS * 1000)) / 1000) lst) ch), w1)"
  using assms
  by (simp add: transfer_frames_volts_def transfer_frames_mV_def Let_def comp_def)

lemma transfer_frames_W_LOG:
  assumes "frontend_type s = LOG" "transfer_frames_adc dev frames w = (Inr ch, w1)"
    "db = (case override of None \<Rightarrow> log_deadband_mV s | Some d \<Rightarrow> d)"
    "v_ch = map (\<lambda>lst. map (\<lambda>x.
             (if 0 < log_deadband_mV s \<and> \<bar>of_int x * (ADC_LSB_VOLTS * 1000)\<bar> < log_deadband_mV s
              then 0 else of_int x * (ADC_LSB_VOLTS * 1000)) / 1000) lst) ch"
  shows "transfer_frames_W dev s frames u override w =
     (mapE (transfer_W_log_ch s db v_ch) [0, 1, 2, 3], w1)"
  unfolding assms(3,4)
  using assms(1) transfer_frames_adc_frames_pos[OF assms(2)]
  by (simp add: transfer_frames_W_def transfer_frames_volts_LOG[OF assms(1,2)] Let_def
      del: mapE.simps)


text \<open>
  C3. On a LOG session, with \<open>db\<close> the active threshold (the \<^verbatim>\<open>log_deadband_mV\<close>
  argument when given, else the session's), \<open>mv\<close> the corrected millivolts of the
  snapshot and \<open>ch\<close> the raw channels of the transfer: whenever \<^verbatim>\<open>snapshot_W\<close> or
  \<^verbatim>\<open>transfer_frames_W\<close> returns, every sample whose corrected magnitude is below \<open>db\<close>
  has output exactly 0; and when every sample is below \<open>db\<close> the call returns all
  zeros on any session, whatever its table, also one whose table was never loaded, where
  an interpolation would raise: the interpolation is not invoked for such a sample.
\<close>

theorem log_deadband_gives_zero:
  assumes "frontend_type s = LOG"
    and "db = (case override of None \<Rightarrow> log_deadband_mV s | Some d \<Rightarrow> d)"
    and "snapshot_adc dev n (snd w) = (Inr (codes, gains), d1)" and "length codes = 4"
    and "mv = map (\<lambda>c. py_round (of_int c * (ADC_LSB_VOLTS * 1000)) 3) codes"
    and "transfer_frames_adc dev frames w = (Inr ch, w1)" and "length ch = 4"
  shows "(\<forall>out w'. snapshot_W dev s n u ag lo hi iters dbg override w = (Inr (Powers out), w')
            \<longrightarrow> (\<forall>c<4. \<bar>mv ! c\<bar> < db \<longrightarrow> out ! c = 0))
       \<and> ((\<forall>c<4. \<bar>mv ! c\<bar> < db)
            \<longrightarrow> snapshot_W dev s n u ag lo hi iters dbg override w
                = (Inr (Powers [0, 0, 0, 0]), (fst w @ [CmdSNAP n], d1)))
       \<and> (\<forall>pw w'. transfer_frames_W dev s frames u override w = (Inr pw, w')
            \<longrightarrow> (\<forall>c<4. \<forall>i<length (ch ! c).
                   \<bar>of_int (ch ! c ! i) * (ADC_LSB_VOLTS * 1000)\<bar> < db \<longrightarrow> pw ! c ! i = 0))
       \<and> ((\<forall>c<4. \<forall>x\<in>set (ch ! c). \<bar>of_int x * (ADC_LSB_VOLTS * 1000)\<bar> < db)
            \<longrightarrow> transfer_frames_W dev s frames u override w
                = (Inr (map (\<lambda>c. map (\<lambda>x. 0) (ch ! c)) [0, 1, 2, 3]), w1))"
proof -
  note sw = snapshot_W_LOG[OF assms(1,3,2,5)]
  from assms(4,5) have lmv: "length mv = 4" by simp
  have 1: "out ! c = 0"
    if run: "snapshot_W dev s n u ag lo hi iters dbg override w = (Inr (Powers out), w')"
      and c: "c < 4" "\<bar>mv ! c\<bar> < db" for out w' c
  proof -
    from run have "mapE (snapshot_W_log_ch s db mv) [0, 1, 2, 3] = Inr out"
      unfolding sw by (auto simp: bindE_def split: sum.splits simp del: mapE.simps)
    from mapE_0123_nth[OF this c(1)] have "snapshot_W_log_ch s db mv (int c) = Inr (out ! c)" .
    with snapshot_W_log_ch_deadband[of c mv db s] c lmv show ?thesis by simp
  qed
  have 2: "snapshot_W dev s n u ag lo hi iters dbg override w
                = (Inr (Powers [0, 0, 0, 0]), (fst w @ [CmdSNAP n], d1))"
    if all: "\<forall>c<4. \<bar>mv ! c\<bar> < db"
  proof -
    have "mapE (snapshot_W_log_ch s db mv) [0, 1, 2, 3] = Inr (map (\<lambda>c. 0) [0, 1, 2, 3 :: int])"
    proof (rule mapE_total)
      fix x :: int assume "x \<in> set [0, 1, 2, 3]"
      then obtain c where c: "c < 4" "x = int c"
        using in_set_0123 by blast
      with all lmv show "snapshot_W_log_ch s db mv x = Inr 0"
        by (simp add: snapshot_W_log_ch_deadband)
    qed
    then show ?thesis unfolding sw by (simp add: bindE_def del: mapE.simps)
  qed
  define v_ch where "v_ch = map (\<lambda>lst. map (\<lambda>x.
             (if 0 < log_deadband_mV s \<and> \<bar>of_int x * (ADC_LSB_VOLTS * 1000)\<bar> < log_deadband_mV s
              then 0 else of_int x * (ADC_LSB_VOLTS * 1000)) / 1000) lst) ch"
  note tw = transfer_frames_W_LOG[OF assms(1,6,2) v_ch_def]
  have lv: "length v_ch = 4" "\<And>c. c < 4 \<Longrightarrow> length (v_ch ! c) = length (ch ! c)"
    using assms(7) by (simp_all add: v_ch_def)
  have small: "\<bar>v_ch ! c ! i * 1000\<bar> < db"
    if "c < 4" "i < length (ch ! c)" "\<bar>of_int (ch ! c ! i) * (ADC_LSB_VOLTS * 1000)\<bar> < db" for c i
    using that assms(7) abs_less_pos[OF that(3)] by (simp add: v_ch_def)
  have 3: "pw ! c ! i = 0"
    if run: "transfer_frames_W dev s frames u override w = (Inr pw, w')"
      and c: "c < 4" "i < length (ch ! c)"
        "\<bar>of_int (ch ! c ! i) * (ADC_LSB_VOLTS * 1000)\<bar> < db" for pw w' c i
  proof -
    from run have "mapE (transfer_W_log_ch s db v_ch) [0, 1, 2, 3] = Inr pw"
      unfolding tw by (simp del: mapE.simps)
    from mapE_0123_nth[OF this c(1)] have "transfer_W_log_ch s db v_ch (int c) = Inr (pw ! c)" .
    then show ?thesis
      by (rule transfer_W_log_ch_nth[rotated]) (use c lv small in simp_all)
  qed
  have 4: "transfer_frames_W dev s frames u override w
                = (Inr (map (\<lambda>c. map (\<lambda>x. 0) (ch ! c)) [0, 1, 2, 3]), w1)"
    if all: "\<forall>c<4. \<forall>x\<in>set (ch ! c). \<bar>of_int x * (ADC_LSB_VOLTS * 1000)\<bar> < db"
  proof -
    have "mapE (transfer_W_log_ch s db v_ch) [0, 1, 2, 3]
        = Inr (map (\<lambda>c. map (\<lambda>x. 0) (ch ! nat c)) [0, 1, 2, 3 :: int])"
    proof (rule mapE_total)
      fix x :: int assume "x \<in> set [0, 1, 2, 3]"
      then obtain c where c: "c < 4" "x = int c"
        using in_set_0123 by blast
      have "\<forall>v\<in>set (v_ch ! c). \<bar>v * 1000\<bar> < db"
      proof
        fix v assume "v \<in> set (v_ch ! c)"
        then obtain i where i: "i < length (v_ch ! c)" "v = v_ch ! c ! i"
          by (auto simp: in_set_conv_nth)
        with lv(2)[OF c(1)] have il: "i < length (ch ! c)" by simp
        then have "ch ! c ! i \<in> set (ch ! c)" by simp
        with all c(1) have "\<bar>of_int (ch ! c ! i) * (ADC_LSB_VOLTS * 1000)\<bar> < db"
          by blast
        from small[OF c(1) il this] i(2) show "\<bar>v * 1000\<bar> < db" by simp
      qed
      from transfer_W_log_ch_all_deadband[OF _ this, of s] c lv
      show "transfer_W_log_ch s db v_ch x = Inr (map (\<lambda>x. 0) (ch ! nat x))"
        by (simp add: map_replicate_const)
    qed
    then show ?thesis unfolding tw by simp
  qed
  from 1 2 3 4 show ?thesis by blast
qed


lemma all_less_4: "(\<forall>c<4. P c) \<longleftrightarrow> P 0 \<and> P 1 \<and> P 2 \<and> P (3::nat)"
proof
  assume "\<forall>c<4. P c" then show "P 0 \<and> P 1 \<and> P 2 \<and> P 3" by simp
next
  assume a: "P 0 \<and> P 1 \<and> P 2 \<and> P 3"
  show "\<forall>c<4. P c"
  proof (intro allI impI)
    fix c :: nat assume "c < 4"
    from four_cases[OF this] a show "P c" by auto
  qed
qed

text \<open>
  A LOG session with no table, threshold 300 mV, and four codes whose millivolts
  (15.259, -76.294, 0, 299.835) are all inside the deadband.
\<close>

theorem log_deadband_gives_zero_witness:
  "frontend_type (fresh_session LOG) = LOG \<and> loglut_V_V (fresh_session LOG) = None
   \<and> snapshot_W (bench_device [100, - 500, 0, 1965] [0, 0, 0, 0]) (fresh_session LOG)
        1 None False 100 4700 10 False None ([], [0x64, 0, 0x0C, 0xFE, 0, 0, 0xAD, 0x07])
      = (Inr (Powers [0, 0, 0, 0]), ([CmdSNAP 1], [0x64, 0, 0x0C, 0xFE, 0, 0, 0xAD, 0x07]))
   \<and> transfer_frames_W (bench_device [100, - 500, 0, 1965] [0, 0, 0, 0]) (fresh_session LOG)
        1 None None ([], [0x64, 0, 0x0C, 0xFE, 0, 0, 0xAD, 0x07])
      = (Inr [[0], [0], [0], [0]], ([CmdXFER 8], []))"
proof -
  let ?dev = "bench_device [100, - 500, 0, 1965] [0, 0, 0, 0]"
  let ?s = "fresh_session LOG"
  let ?w = "([], [0x64, 0, 0x0C, 0xFE, 0, 0, 0xAD, 0x07]) :: (8 word list) world"
  let ?mv = "map (\<lambda>c. py_round (of_int c * (ADC_LSB_VOLTS * 1000)) 3) [100, - 500, 0, 1965]"
  have 1: "frontend_type ?s = LOG" and lut: "loglut_V_V ?s = None"
    by (simp_all add: fresh_session_def)
  have 2: "(300::real) = (case None of None \<Rightarrow> log_deadband_mV ?s | Some d \<Rightarrow> d)"
    by (simp add: fresh_session_def)
  have 3: "snapshot_adc ?dev 1 (snd ?w)
      = (Inr ([100, - 500, 0, 1965], [0, 0, 0, 0]), [0x64, 0, 0x0C, 0xFE, 0, 0, 0xAD, 0x07])"
    by (simp add: bench_device_def silent_device_def)
  have 4: "length [100, - 500, 0, 1965 :: int] = 4" by simp
  have 5: "transfer_frames_adc ?dev 1 ?w = (Inr [[100], [- 500], [0], [1965]], ([CmdXFER 8], []))"
    by (simp add: transfer_frames_adc_def exchange_def bench_device_def silent_device_def
        read_loop.simps ser_read_def slice_step_def le_int16_def)
  have 6: "length [[100], [- 500], [0], [1965 :: int]] = 4" by simp
  note inst = log_deadband_gives_zero[OF 1 2 3 4 refl 5 6, of None False 100 4700 10 False]
  have small_mv: "\<forall>c<4. \<bar>?mv ! c\<bar> < 300"
    by (simp add: all_less_4 lsb_mV_value py_round_def py_round_int_def Let_def)
  have small_ch: "\<forall>c<4. \<forall>x\<in>set ([[100], [- 500], [0], [1965 :: int]] ! c).
      \<bar>of_int x * (ADC_LSB_VOLTS * 1000)\<bar> < (300 :: real)"
    by (simp add: all_less_4 lsb_mV_value)
  from inst have "(\<forall>c<4. \<bar>?mv ! c\<bar> < 300)
            \<longrightarrow> snapshot_W ?dev ?s 1 None False 100 4700 10 False None ?w
                = (Inr (Powers [0, 0, 0, 0]), (fst ?w @ [CmdSNAP 1], [0x64, 0, 0x0C, 0xFE, 0, 0, 0xAD, 0x07]))"
    by (elim conjE)
  with small_mv have a: "snapshot_W ?dev ?s 1 None False 100 4700 10 False None ?w
      = (Inr (Powers [0, 0, 0, 0]), ([CmdSNAP 1], [0x64, 0, 0x0C, 0xFE, 0, 0, 0xAD, 0x07]))"
    by simp
  from inst have "(\<forall>c<4. \<forall>x\<in>set ([[100], [- 500], [0], [1965 :: int]] ! c).
             \<bar>of_int x * (ADC_LSB_VOLTS * 1000)\<bar> < (300 :: real))
            \<longrightarrow> transfer_frames_W ?dev ?s 1 None None ?w
                = (Inr (map (\<lambda>c. map (\<lambda>x. 0) ([[100], [- 500], [0], [1965 :: int]] ! c))
                     [0, 1, 2, 3]), ([CmdXFER 8], []))"
    by (elim conjE)
  with small_ch have b: "transfer_frames_W ?dev ?s 1 None None ?w
      = (Inr [[0], [0], [0], [0]], ([CmdXFER 8], []))"
    by simp
  from 1 lut a b show ?thesis by (intro conjI)
qed

subsection \<open>The default deadband\<close>

lemma load_linear_cells_keeps:
  "load_linear_cells dev cells s w = (r, s', w') \<Longrightarrow>
   log_deadband_mV s' = log_deadband_mV s \<and> frontend_type s' = frontend_type s"
proof (induction cells arbitrary: s w)
  case Nil
  then show ?case by simp
next
  case (Cons cell cells)
  obtain head gain where cell: "cell = (head, gain)" by (cases cell)
  obtain res w1 where ex: "exchange (CmdCAL head gain) (cal_query dev head gain) w = (res, w1)"
    by (cases "exchange (CmdCAL head gain) (cal_query dev head gain) w")
  show ?case
  proof (cases res)
    case (Inl e)
    with Cons.prems cell ex show ?thesis by simp
  next
    case (Inr si)
    obtain slope intercept where si: "si = (slope, intercept)" by (cases si)
    from Cons.prems cell ex Inr si Cons.IH show ?thesis by fastforce
  qed
qed

lemma load_log_calibration_keeps:
  "load_log_calibration dev s w = (r, s', w') \<Longrightarrow>
   log_deadband_mV s' = log_deadband_mV s \<and> frontend_type s' = frontend_type s"
  by (auto simp: load_log_calibration_def Let_def split: prod.splits sum.splits if_splits)

lemma load_log_calibration_loads:
  "load_log_calibration dev s w = (Inr u, s', w') \<Longrightarrow>
   \<exists>xs ys. loglut_V_V s' = Some xs \<and> loglut_log10P s' = Some ys \<and> xs \<noteq> []
           \<and> length ys = length xs"
  by (auto simp: load_log_calibration_def Let_def split: prod.splits sum.splits if_splits)

lemma load_factory_zeros_keeps:
  "load_factory_zeros dev s w = (r, s', w') \<Longrightarrow>
   log_deadband_mV s' = log_deadband_mV s \<and> frontend_type s' = frontend_type s
   \<and> loglut_V_V s' = loglut_V_V s \<and> loglut_log10P s' = loglut_log10P s"
  by (auto simp: load_factory_zeros_def split: prod.splits sum.splits)

lemma load_calibration_for_frontend_keeps:
  "load_calibration_for_frontend dev s w = (r, s', w') \<Longrightarrow>
   log_deadband_mV s' = log_deadband_mV s \<and> frontend_type s' = frontend_type s"
proof (cases "frontend_type s")
  case LINEAR
  assume "load_calibration_for_frontend dev s w = (r, s', w')"
  with LINEAR have "load_linear_cells dev (List.product [1, 2, 3, 4] [0, 1, 2, 3, 4, 5, 6, 7]) s w
      = (r, s', w')"
    by (simp only: load_calibration_for_frontend_def load_linear_calibration_def frontend.case)
  then show ?thesis by (rule load_linear_cells_keeps)
next
  case LOG
  assume "load_calibration_for_frontend dev s w = (r, s', w')"
  with LOG have "load_log_calibration dev s w = (r, s', w')"
    by (simp only: load_calibration_for_frontend_def frontend.case)
  then show ?thesis by (rule load_log_calibration_keeps)
qed

text \<open>What a constructed session holds.\<close>

lemma CoreDAQ_init_session:
  assumes "CoreDAQ_init dev d = (Inr s, w)"
  shows "log_deadband_mV s = 300"
    and "frontend_type s = LOG \<Longrightarrow>
      \<exists>xs ys. loglut_V_V s = Some xs \<and> loglut_log10P s = Some ys \<and> xs \<noteq> []
           \<and> length ys = length xs"
proof -
  from assms obtain ft w1 u w2 u3 s3 w3 where
    steps: "load_calibration_for_frontend dev (fresh_session ft) w2 = (Inr u3, s3, w3)"
    and fin: "(frontend_type s3 = LINEAR \<and> (\<exists>z. load_factory_zeros dev s3 w3 = (Inr z, s, w)))
            \<or> (frontend_type s3 \<noteq> LINEAR \<and> s = s3)"
    by (auto simp: CoreDAQ_init_def split: prod.splits sum.splits if_splits)
  from load_calibration_for_frontend_keeps[OF steps]
  have k3: "log_deadband_mV s3 = 300" "frontend_type s3 = ft"
    by (simp_all add: fresh_session_def)
  from fin k3 show "log_deadband_mV s = 300"
    by (auto dest: load_factory_zeros_keeps)
  assume log: "frontend_type s = LOG"
  with fin have s3: "s = s3" by (auto dest: load_factory_zeros_keeps)
  with log k3 have "ft = LOG" by simp
  with steps have "load_log_calibration dev (fresh_session LOG) w2 = (Inr u3, s3, w3)"
    by (simp add: load_calibration_for_frontend_def fresh_session_def)
  from load_log_calibration_loads[OF this] s3
  show "\<exists>xs ys. loglut_V_V s = Some xs \<and> loglut_log10P s = Some ys \<and> xs \<noteq> []
           \<and> length ys = length xs" by simp
qed


lemma zero_ops_keep_deadband:
  "set_soft_zero_adc s z1 z2 z3 z4 = Inr s' \<Longrightarrow> log_deadband_mV s' = log_deadband_mV s"
  "log_deadband_mV (fst (snd (refresh_factory_zeros dev s w))) = log_deadband_mV s"
  "log_deadband_mV (fst (snd (restore_factory_zero dev s w))) = log_deadband_mV s"
  "log_deadband_mV (fst (snd (soft_zero_from_snapshot dev s n w))) = log_deadband_mV s"
  by (auto simp: set_soft_zero_adc_def refresh_factory_zeros_def restore_factory_zero_def
      soft_zero_from_snapshot_def load_factory_zeros_def
      split: if_splits prod.splits sum.splits)

lemma snapshot_W_log_ch_total:
  assumes "frontend_type s = LOG" "loglut_V_V s = Some xs" "loglut_log10P s = Some ys"
    "xs \<noteq> []" "length ys = length xs" "c < length mv"
  shows "\<exists>p. snapshot_W_log_ch s db mv (int c) = Inr p"
proof -
  have "\<exists>p. voltage_to_power_W s (Num v) = Inr (Num p)" for v
    using assms(1-3) interp_one_value[OF assms(4,5), of v]
    by (simp add: voltage_to_power_W_def require_frontend_def bindE_def)
  then have "\<exists>p. bindE (voltage_to_power_W s (Num v)) float_of = Inr p" for v
    by (metis bindE_def float_of_def num_or_seq.simps(5) sum.simps(6))
  with assms(6) show ?thesis
    by (simp add: snapshot_W_log_ch_def bindE_def py_get_nat Let_def)
qed

text \<open>
  C10. A session that \<^verbatim>\<open>__init__\<close> has constructed holds a LOG deadband of exactly 300
  mV: \<^verbatim>\<open>get_log_deadband_mV\<close> returns 300, and still does after any of the zero-offset
  methods; only \<^verbatim>\<open>set_log_deadband_mV\<close> changes it. On a LOG frontend \<^verbatim>\<open>snapshot_W\<close>
  with its default arguments then returns four powers, with 0 W for every channel whose
  corrected magnitude is below 300 mV.
\<close>

theorem fresh_session_log_deadband_300:
  assumes "CoreDAQ_init dev d = (Inr s, w)"
  shows "get_log_deadband_mV s = 300
       \<and> (\<forall>z1 z2 z3 z4 s'. set_soft_zero_adc s z1 z2 z3 z4 = Inr s'
             \<longrightarrow> get_log_deadband_mV s' = 300)
       \<and> get_log_deadband_mV (fst (snd (refresh_factory_zeros dev s w0))) = 300
       \<and> get_log_deadband_mV (fst (snd (restore_factory_zero dev s w0))) = 300
       \<and> get_log_deadband_mV (fst (snd (soft_zero_from_snapshot dev s n w0))) = 300
       \<and> (\<forall>x s'. set_log_deadband_mV s x = Inr s' \<longrightarrow> get_log_deadband_mV s' = x)
       \<and> (frontend_type s = LOG \<longrightarrow> snapshot_adc dev n (snd w0) = (Inr (codes, gains), d1)
            \<longrightarrow> length codes = 4 \<longrightarrow>
            (\<exists>out. snapshot_W dev s n None False 100 4700 10 False None w0
                      = (Inr (Powers out), (fst w0 @ [CmdSNAP n], d1))
                  \<and> length out = 4
                  \<and> (\<forall>c<4. \<bar>py_round (of_int (codes ! c) * (ADC_LSB_VOLTS * 1000)) 3\<bar> < 300
                             \<longrightarrow> out ! c = 0)))"
proof -
  note init = CoreDAQ_init_session[OF assms]
  have 1: "get_log_deadband_mV s = 300" by (simp add: get_log_deadband_mV_def init(1))
  have 2: "get_log_deadband_mV s' = 300" if "set_soft_zero_adc s z1 z2 z3 z4 = Inr s'"
    for z1 z2 z3 z4 s'
    using zero_ops_keep_deadband(1)[OF that] by (simp add: get_log_deadband_mV_def init(1))
  have 3: "get_log_deadband_mV (fst (snd (refresh_factory_zeros dev s w0))) = 300"
    "get_log_deadband_mV (fst (snd (restore_factory_zero dev s w0))) = 300"
    "get_log_deadband_mV (fst (snd (soft_zero_from_snapshot dev s n w0))) = 300"
    by (simp_all add: get_log_deadband_mV_def zero_ops_keep_deadband init(1))
  have 4: "get_log_deadband_mV s' = x" if "set_log_deadband_mV s x = Inr s'" for x s'
    using that by (auto simp: set_log_deadband_mV_def get_log_deadband_mV_def split: if_splits)
  have 5: "\<exists>out. snapshot_W dev s n None False 100 4700 10 False None w0
                      = (Inr (Powers out), (fst w0 @ [CmdSNAP n], d1))
                  \<and> length out = 4
                  \<and> (\<forall>c<4. \<bar>py_round (of_int (codes ! c) * (ADC_LSB_VOLTS * 1000)) 3\<bar> < 300
                             \<longrightarrow> out ! c = 0)"
    if log: "frontend_type s = LOG" and snap: "snapshot_adc dev n (snd w0) = (Inr (codes, gains), d1)"
      and len: "length codes = 4"
  proof -
    define mv where "mv = map (\<lambda>c. py_round (of_int c * (ADC_LSB_VOLTS * 1000)) 3) codes"
    have db: "(300 :: real) = (case None of None \<Rightarrow> log_deadband_mV s | Some d \<Rightarrow> d)"
      by (simp add: init(1))
    note sw = snapshot_W_LOG[OF log snap db mv_def, of None False 100 4700 10 False]
    from init(2)[OF log] obtain xs ys where lut:
      "loglut_V_V s = Some xs" "loglut_log10P s = Some ys" "xs \<noteq> []" "length ys = length xs"
      by blast
    from len have lmv: "length mv = 4" by (simp add: mv_def)
    define g where "g x = (case snapshot_W_log_ch s 300 mv x of Inr p \<Rightarrow> p | Inl e \<Rightarrow> 0)" for x
    have "mapE (snapshot_W_log_ch s 300 mv) [0, 1, 2, 3] = Inr (map g [0, 1, 2, 3])"
    proof (rule mapE_total)
      fix x :: int assume "x \<in> set [0, 1, 2, 3]"
      then obtain c where c: "c < 4" "x = int c" using in_set_0123 by blast
      with snapshot_W_log_ch_total[OF log lut, of c mv 300] lmv
      show "snapshot_W_log_ch s 300 mv x = Inr (g x)" by (auto simp: g_def)
    qed
    then have run: "snapshot_W dev s n None False 100 4700 10 False None w0
        = (Inr (Powers (map g [0, 1, 2, 3])), (fst w0 @ [CmdSNAP n], d1))"
      unfolding sw by (simp add: bindE_def del: mapE.simps)
    have "map g [0, 1, 2, 3] ! c = 0"
      if c: "c < 4" "\<bar>py_round (of_int (codes ! c) * (ADC_LSB_VOLTS * 1000)) 3\<bar> < 300" for c
    proof -
      from c len have "\<bar>mv ! c\<bar> < 300" by (simp add: mv_def)
      with snapshot_W_log_ch_deadband[of c mv 300 s] c(1) lmv have "g (int c) = 0"
        by (simp add: g_def)
      with four_cases[OF c(1)] show ?thesis by auto
    qed
    with run show ?thesis by (intro exI[of _ "map g [0, 1, 2, 3]"]) simp
  qed
  from 1 2 3 4 5 show ?thesis by blast
qed


text \<open>
  The construction against a LOG bench device that serves the scenario table, and a
  snapshot of the codes 100, -500, 0, 6554 (15.259, -76.294, 0 and 1000.061 mV).
\<close>

lemma init_log_device:
  "CoreDAQ_init (log_device [(0, - 589824), (1000, - 393216), (2000, - 196608)] [100, - 500, 0, 6554]) []
   = (Inr ((fresh_session LOG)\<lparr>loglut_V_mV := Some [0, 1000, 2000],
              loglut_log10P_Q16 := Some [- 589824, - 393216, - 196608],
              loglut_V_V := Some [0, 1, 2], loglut_log10P := Some [- 9, - 6, - 3]\<rparr>),
      ([CmdHEADTYPEQ, CmdI2CREFRESH, CmdLOGCAL], []))"
  by (simp add: CoreDAQ_init_def exchange_def i2c_refresh_def ask_cmd_def
      load_calibration_for_frontend_def load_log_calibration_def log_device_def bench_device_def
      silent_device_def fresh_session_def Let_def)

theorem fresh_session_log_deadband_300_witness:
  "CoreDAQ_init (log_device [(0, - 589824), (1000, - 393216), (2000, - 196608)] [100, - 500, 0, 6554]) []
   = (Inr ((fresh_session LOG)\<lparr>loglut_V_mV := Some [0, 1000, 2000],
              loglut_log10P_Q16 := Some [- 589824, - 393216, - 196608],
              loglut_V_V := Some [0, 1, 2], loglut_log10P := Some [- 9, - 6, - 3]\<rparr>),
      ([CmdHEADTYPEQ, CmdI2CREFRESH, CmdLOGCAL], []))
   \<and> get_log_deadband_mV ((fresh_session LOG)\<lparr>loglut_V_mV := Some [0, 1000, 2000],
              loglut_log10P_Q16 := Some [- 589824, - 393216, - 196608],
              loglut_V_V := Some [0, 1, 2], loglut_log10P := Some [- 9, - 6, - 3]\<rparr>) = 300
   \<and> (\<exists>out. snapshot_W
          (log_device [(0, - 589824), (1000, - 393216), (2000, - 196608)] [100, - 500, 0, 6554])
          ((fresh_session LOG)\<lparr>loglut_V_mV := Some [0, 1000, 2000],
              loglut_log10P_Q16 := Some [- 589824, - 393216, - 196608],
              loglut_V_V := Some [0, 1, 2], loglut_log10P := Some [- 9, - 6, - 3]\<rparr>)
          1 None False 100 4700 10 False None ([CmdHEADTYPEQ, CmdI2CREFRESH, CmdLOGCAL], [])
        = (Inr (Powers out), ([CmdHEADTYPEQ, CmdI2CREFRESH, CmdLOGCAL, CmdSNAP 1], []))
        \<and> length out = 4 \<and> out ! 0 = 0 \<and> out ! 1 = 0 \<and> out ! 2 = 0)"
proof -
  let ?dev = "log_device [(0, - 589824), (1000, - 393216), (2000, - 196608)] [100, - 500, 0, 6554]"
  let ?s = "(fresh_session LOG)\<lparr>loglut_V_mV := Some [0, 1000, 2000],
              loglut_log10P_Q16 := Some [- 589824, - 393216, - 196608],
              loglut_V_V := Some [0, 1, 2], loglut_log10P := Some [- 9, - 6, - 3]\<rparr>"
  let ?w = "([CmdHEADTYPEQ, CmdI2CREFRESH, CmdLOGCAL], []) :: (8 word list) world"
  note inst = fresh_session_log_deadband_300[OF init_log_device,
      of ?w 1 "[100, - 500, 0, 6554]" "[0, 0, 0, 0]" "[]"]
  from inst have a: "get_log_deadband_mV ?s = 300" by (elim conjE)
  have log: "frontend_type ?s = LOG" by (simp add: fresh_session_def)
  have snap: "snapshot_adc ?dev 1 (snd ?w) = (Inr ([100, - 500, 0, 6554], [0, 0, 0, 0]), [])"
    by (simp add: log_device_def bench_device_def silent_device_def)
  from inst have "frontend_type ?s = LOG
     \<longrightarrow> snapshot_adc ?dev 1 (snd ?w) = (Inr ([100, - 500, 0, 6554], [0, 0, 0, 0]), [])
     \<longrightarrow> length [100, - 500, 0, 6554 :: int] = 4 \<longrightarrow>
            (\<exists>out. snapshot_W ?dev ?s 1 None False 100 4700 10 False None ?w
                      = (Inr (Powers out), (fst ?w @ [CmdSNAP 1], []))
                  \<and> length out = 4
                  \<and> (\<forall>c<4. \<bar>py_round (of_int ([100, - 500, 0, 6554] ! c) * (ADC_LSB_VOLTS * 1000)) 3\<bar> < 300
                             \<longrightarrow> out ! c = 0))"
    by (elim conjE)
  with log snap obtain out where out:
    "snapshot_W ?dev ?s 1 None False 100 4700 10 False None ?w
                      = (Inr (Powers out), (fst ?w @ [CmdSNAP 1], []))"
    "length out = 4"
    "\<forall>c<4. \<bar>py_round (of_int ([100, - 500, 0, 6554] ! c) * (ADC_LSB_VOLTS * 1000)) 3\<bar> < 300
                             \<longrightarrow> out ! c = 0"
    by auto
  from out(3) have "out ! 0 = 0" "out ! 1 = 0" "out ! 2 = 0"
    by (simp_all add: all_less_4 lsb_mV_value py_round_def py_round_int_def Let_def)
  with out(1,2) have b: "\<exists>out. snapshot_W ?dev ?s 1 None False 100 4700 10 False None ?w
        = (Inr (Powers out), ([CmdHEADTYPEQ, CmdI2CREFRESH, CmdLOGCAL, CmdSNAP 1], []))
        \<and> length out = 4 \<and> out ! 0 = 0 \<and> out ! 1 = 0 \<and> out ! 2 = 0"
    by (intro exI[of _ out]) simp
  from init_log_device a b show ?thesis by (intro conjI)
qed

subsection \<open>The LINEAR conversion\<close>


lemma py_round_int_bounds:
  "of_int (py_round_int x) \<le> x + 1 / 2" "x - 1 / 2 \<le> of_int (py_round_int x)"
  unfolding py_round_int_def Let_def by (auto; linarith)+

lemma py_round_int_floor_le: "\<lfloor>x\<rfloor> \<le> py_round_int x" "py_round_int x \<le> \<lfloor>x\<rfloor> + 1"
  by (simp_all add: py_round_int_def Let_def)

lemma py_round_int_mono:
  assumes "x \<le> y"
  shows "py_round_int x \<le> py_round_int y"
proof (cases "\<lfloor>x\<rfloor> = \<lfloor>y\<rfloor>")
  case True
  with assms show ?thesis
    by (auto simp: py_round_int_def Let_def)
next
  case False
  with assms have "\<lfloor>x\<rfloor> + 1 \<le> \<lfloor>y\<rfloor>" using floor_mono[OF assms] by linarith
  with py_round_int_floor_le(2)[of x] py_round_int_floor_le(1)[of y] show ?thesis by linarith
qed

lemma py_round_mono:
  assumes "0 \<le> d" "x \<le> y"
  shows "py_round x d \<le> py_round y d"
proof -
  from assms(2) have "x * 10 ^ nat d \<le> y * 10 ^ nat d" by (simp add: mult_right_mono)
  then have "py_round_int (x * 10 ^ nat d) \<le> py_round_int (y * 10 ^ nat d)"
    by (rule py_round_int_mono)
  then have "(of_int (py_round_int (x * 10 ^ nat d)) :: real) \<le> of_int (py_round_int (y * 10 ^ nat d))"
    by simp
  with assms(1) show ?thesis by (simp add: py_round_def divide_right_mono)
qed

lemma py_round_int_eq:
  assumes "of_int n - 1 / 2 < x" "x < of_int n + 1 / 2"
  shows "py_round_int x = n"
proof -
  from assms have f: "\<lfloor>x\<rfloor> = n \<or> \<lfloor>x\<rfloor> = n - 1" by linarith
  then show ?thesis
  proof
    assume "\<lfloor>x\<rfloor> = n"
    with assms show ?thesis by (auto simp: py_round_int_def Let_def)
  next
    assume "\<lfloor>x\<rfloor> = n - 1"
    with assms show ?thesis by (auto simp: py_round_int_def Let_def)
  qed
qed


lemma power_decimals_range: "0 \<le> power_decimals slope \<and> power_decimals slope \<le> 12"
  by (simp add: power_decimals_def Let_def)

lemma power_decimals_pos:
  "0 < slope \<Longrightarrow> power_decimals slope
     = max 0 (min 12 (py_round_int (- log 10 (ADC_LSB_VOLTS * 1000 / slope))))"
  by (simp add: power_decimals_def Let_def lsb_mV_value not_le)

lemma power_decimals_neg: "slope < 0 \<Longrightarrow> power_decimals slope = 0"
  by (simp add: power_decimals_def Let_def lsb_mV_value divide_le_0_iff)

lemma linear_sample_W_value:
  "mv_zero_threshold s = 0 \<Longrightarrow>
   linear_sample_W s slope intercept m
     = py_round (max 0 ((m - intercept) / slope)) (power_decimals slope)"
  by (simp add: linear_sample_W_def Let_def max_def)


lemma log10_lsb_over_100: "py_round_int (- log 10 (ADC_LSB_VOLTS * 1000 / 100)) = 3"
proof -
  have x: "ADC_LSB_VOLTS * 1000 / 100 = 1 / (16384 / 25)" by (simp add: lsb_mV_value)
  have up: "log 10 (16384 / 25) < 3"
    by (subst log_less_iff) (simp_all add: powr_numeral)
  have lo: "5 / 2 < log 10 (16384 / 25)"
  proof -
    have "(10 powr (5 / 2)) ^ 2 = (10::real) powr 5"
      by (simp add: powr_power)
    also have "\<dots> = 10 ^ 5" by (simp add: powr_numeral)
    finally have sq: "(10 powr (5 / 2)) ^ 2 = (100000 :: real)" by simp
    have "(10::real) powr (5 / 2) < 16384 / 25"
    proof (rule power2_less_imp_less)
      show "((10::real) powr (5 / 2))\<^sup>2 < (16384 / 25)\<^sup>2" unfolding sq by (simp add: power2_eq_square)
      show "0 \<le> (16384 / 25 :: real)" by simp
    qed
    then show ?thesis by (subst less_log_iff) simp_all
  qed
  have "- log 10 (ADC_LSB_VOLTS * 1000 / 100) = log 10 (16384 / 25)"
    unfolding x by (simp add: log_divide)
  with up lo show ?thesis by (intro py_round_int_eq) simp_all
qed

lemma power_decimals_100: "power_decimals 100 = 3"
  using log10_lsb_over_100 by (simp add: power_decimals_pos)



lemma uniform_session_simps:
  "mv_zero_threshold (uniform_session a b) = 0"
  "frontend_type (uniform_session a b) = LINEAR"
  "linear_zero_adc (uniform_session a b) = [0, 0, 0, 0]"
  "c < 4 \<Longrightarrow> g < 8 \<Longrightarrow>
     bindE (py_get (cal_slope (uniform_session a b)) (int c)) (\<lambda>row. py_get row (int g)) = Inr a"
  "c < 4 \<Longrightarrow> g < 8 \<Longrightarrow>
     bindE (py_get (cal_intercept (uniform_session a b)) (int c)) (\<lambda>row. py_get row (int g)) = Inr b"
  by (simp_all add: uniform_session_def fresh_session_def NUM_HEADS_def NUM_GAINS_def
      py_get_def bindE_def)



lemma list_of_length_4:
  assumes "length xs = 4"
  obtains x0 x1 x2 x3 where "xs = [x0, x1, x2, x3]"
proof -
  from assms have "xs = [xs ! 0, xs ! 1, xs ! 2, xs ! 3]"
    by (auto simp: list_eq_iff_nth_eq nth_Cons' less_Suc_eq numeral_eq_Suc)
  then show ?thesis by (rule that)
qed

text \<open>A snapshot of the bench device on a uniform session, without autogain.\<close>
lemma snapshot_W_uniform:
  assumes "a \<noteq> 0" "length codes = 4"
  shows "snapshot_W (bench_device codes [0, 0, 0, 0]) (uniform_session a b)
           n u False lo hi iters False db (sent, d)
       = (Inr (Powers (map (\<lambda>c. linear_sample_W (uniform_session a b) a b
                               (py_round (of_int c * (ADC_LSB_VOLTS * 1000)) 3)) codes)),
          (sent @ [CmdSNAP n], d))"
proof -
  from assms(2) obtain c0 c1 c2 c3 where codes: "codes = [c0, c1, c2, c3]"
    by (rule list_of_length_4)
  let ?s = "uniform_session a b"
  let ?mv = "map (\<lambda>c. py_round (of_int c * (ADC_LSB_VOLTS * 1000)) 3) codes"
  have z: "apply_linear_zero_ch ?s codes = Inr codes"
    by (simp add: apply_linear_zero_ch_LINEAR uniform_session_simps codes)
  have mv: "snapshot_mV (bench_device codes [0, 0, 0, 0]) ?s n None (sent, d)
      = (Inr (?mv, [0, 0, 0, 0]), (sent @ [CmdSNAP n], d))"
    by (simp add: snapshot_mV_def do_snapshot_adc_def exchange_def bench_device_def
        silent_device_def z Let_def)
  have ch: "snapshot_W_linear_ch ?s ?mv [0, 0, 0, 0] (int c)
      = Inr (linear_sample_W ?s a b (?mv ! c))" if "c < 4" for c
  proof -
    have m: "py_get ?mv (int c) = Inr (?mv ! c)"
      using that by (simp add: py_get_nat codes)
    have g: "py_get [0, 0, 0, 0 :: int] (int c) = Inr 0"
      using four_cases[OF that] by (auto simp: py_get_def)
    show ?thesis
      using uniform_session_simps(4,5)[OF that, of 0 a b] assms(1)
      by (simp add: snapshot_W_linear_ch_def m g bindE_def)
  qed
  have "mapE (snapshot_W_linear_ch ?s ?mv [0, 0, 0, 0]) [0, 1, 2, 3]
      = Inr (map (\<lambda>x. linear_sample_W ?s a b (?mv ! nat x)) [0, 1, 2, 3])"
  proof (rule mapE_total)
    fix x :: int assume "x \<in> set [0, 1, 2, 3]"
    then obtain c where c: "c < 4" "x = int c" using in_set_0123 by blast
    with ch[OF c(1)]
    show "snapshot_W_linear_ch ?s ?mv [0, 0, 0, 0] x = Inr (linear_sample_W ?s a b (?mv ! nat x))"
      by simp
  qed
  with mv show ?thesis
    by (simp add: snapshot_W_def uniform_session_simps(2) bindE_def codes del: mapE.simps)
qed


lemma lsb_value: "ADC_LSB_VOLTS = 5 / 32768"
  by (simp add: ADC_LSB_VOLTS_def ADC_VFS_VOLTS_def ADC_BITS_def)




lemma linear_sample_W_mono:
  assumes "mv_zero_threshold s = 0" "0 < slope" "m \<le> m'"
  shows "linear_sample_W s slope intercept m \<le> linear_sample_W s slope intercept m'"
proof -
  from assms(2,3) have "(m - intercept) / slope \<le> (m' - intercept) / slope"
    by (simp add: divide_right_mono)
  then have "max 0 ((m - intercept) / slope) \<le> max 0 ((m' - intercept) / slope)" by simp
  with power_decimals_range[of slope] show ?thesis
    unfolding linear_sample_W_value[OF assms(1)] by (intro py_round_mono) simp_all
qed

lemma linear_sample_W_antimono:
  assumes "mv_zero_threshold s = 0" "slope < 0" "m \<le> m'"
  shows "linear_sample_W s slope intercept m' \<le> linear_sample_W s slope intercept m"
proof -
  from assms(2,3) have "(m' - intercept) / slope \<le> (m - intercept) / slope"
    by (simp add: divide_right_mono_neg)
  then have "max 0 ((m' - intercept) / slope) \<le> max 0 ((m - intercept) / slope)" by simp
  with power_decimals_range[of slope] show ?thesis
    unfolding linear_sample_W_value[OF assms(1)] by (intro py_round_mono) simp_all
qed

lemma mV_mono:
  assumes "c \<le> c'"
  shows "of_int (c - z) * (ADC_LSB_VOLTS * 1000) \<le> of_int (c' - z) * (ADC_LSB_VOLTS * 1000)"
    and "py_round (of_int (c - z) * (ADC_LSB_VOLTS * 1000)) 3
       \<le> py_round (of_int (c' - z) * (ADC_LSB_VOLTS * 1000)) 3"
proof -
  from assms show 1: "of_int (c - z) * (ADC_LSB_VOLTS * 1000) \<le> of_int (c' - z) * (ADC_LSB_VOLTS * 1000)"
    by (simp add: lsb_mV_value)
  then show "py_round (of_int (c - z) * (ADC_LSB_VOLTS * 1000)) 3
       \<le> py_round (of_int (c' - z) * (ADC_LSB_VOLTS * 1000)) 3"
    by (intro py_round_mono) simp_all
qed

text \<open>
  C9, amended. On a session whose near-zero threshold is 0, for a channel with looked-up
  gain, slope and intercept, active zero \<open>z\<close>, and raw codes \<open>c \<le> c'\<close>: with the
  millivolts as \<^verbatim>\<open>snapshot_mV\<close> and \<^verbatim>\<open>transfer_frames_mV\<close> compute them from
  \<open>code - z\<close>, the channel conversions return, and for a positive slope the watts of
  \<open>c\<close> are at most the watts of \<open>c'\<close> (in the snapshot, and between any two samples
  of a transfer); for a negative slope the order is reversed.
\<close>

theorem linear_conversion_monotone_for_positive_slope:
  assumes "mv_zero_threshold s = 0"
    and "py_get gains ch = Inr gain"
    and "bindE (py_get (cal_slope s) ch) (\<lambda>row. py_get row gain) = Inr slope"
    and "bindE (py_get (cal_intercept s) ch) (\<lambda>row. py_get row gain) = Inr intercept"
    and "py_get mv ch = Inr (py_round (of_int (c - z) * (ADC_LSB_VOLTS * 1000)) 3)"
    and "py_get mv' ch = Inr (py_round (of_int (c' - z) * (ADC_LSB_VOLTS * 1000)) 3)"
    and "py_get mv_ch ch = Inr (map (\<lambda>code. of_int (code - z) * (ADC_LSB_VOLTS * 1000)) codes)"
    and "c \<le> c'"
  shows "(0 < slope \<longrightarrow>
            (\<exists>p p'. snapshot_W_linear_ch s mv gains ch = Inr p
                  \<and> snapshot_W_linear_ch s mv' gains ch = Inr p' \<and> p \<le> p')
          \<and> (\<exists>ps. transfer_W_linear_ch s mv_ch gains ch = Inr ps \<and> length ps = length codes
                  \<and> (\<forall>i<length codes. \<forall>j<length codes. codes ! i \<le> codes ! j
                        \<longrightarrow> ps ! i \<le> ps ! j)))
       \<and> (slope < 0 \<longrightarrow>
            (\<exists>p p'. snapshot_W_linear_ch s mv gains ch = Inr p
                  \<and> snapshot_W_linear_ch s mv' gains ch = Inr p' \<and> p' \<le> p)
          \<and> (\<exists>ps. transfer_W_linear_ch s mv_ch gains ch = Inr ps \<and> length ps = length codes
                  \<and> (\<forall>i<length codes. \<forall>j<length codes. codes ! i \<le> codes ! j
                        \<longrightarrow> ps ! j \<le> ps ! i)))"
proof -
  let ?m = "\<lambda>c. py_round (of_int (c - z) * (ADC_LSB_VOLTS * 1000)) 3"
  let ?t = "\<lambda>code. of_int (code - z) * (ADC_LSB_VOLTS * 1000) :: real"
  have snap: "snapshot_W_linear_ch s mv gains ch = Inr (linear_sample_W s slope intercept (?m c))"
    "snapshot_W_linear_ch s mv' gains ch = Inr (linear_sample_W s slope intercept (?m c'))"
    if "slope \<noteq> 0"
    using assms(2-6) that by (simp_all add: snapshot_W_linear_ch_def bindE_def)
  have xfer: "transfer_W_linear_ch s mv_ch gains ch
      = Inr (map (\<lambda>code. linear_sample_W s slope intercept (?t code)) codes)"
    if "slope \<noteq> 0"
    using assms(2-4,7) that by (simp add: transfer_W_linear_ch_def bindE_def comp_def)
  have pos: ?thesis if s: "0 < slope"
  proof -
    have "linear_sample_W s slope intercept (?m c) \<le> linear_sample_W s slope intercept (?m c')"
      by (rule linear_sample_W_mono[OF assms(1) s mV_mono(2)[OF assms(8)]])
    moreover have "linear_sample_W s slope intercept (?t (codes ! i))
        \<le> linear_sample_W s slope intercept (?t (codes ! j))" if "codes ! i \<le> codes ! j" for i j
      by (rule linear_sample_W_mono[OF assms(1) s mV_mono(1)[OF that]])
    ultimately show ?thesis using s by (simp add: snap xfer)
  qed
  have neg: ?thesis if s: "slope < 0"
  proof -
    have "linear_sample_W s slope intercept (?m c') \<le> linear_sample_W s slope intercept (?m c)"
      by (rule linear_sample_W_antimono[OF assms(1) s mV_mono(2)[OF assms(8)]])
    moreover have "linear_sample_W s slope intercept (?t (codes ! j))
        \<le> linear_sample_W s slope intercept (?t (codes ! i))" if "codes ! i \<le> codes ! j" for i j
      by (rule linear_sample_W_antimono[OF assms(1) s mV_mono(1)[OF that]])
    ultimately show ?thesis using s by (simp add: snap xfer)
  qed
  from pos neg show ?thesis by (cases "0 < slope"; cases "slope < 0") auto
qed

text \<open>
  C9, as stated, at slope -100 mV/W and intercept 5 mV (a nonzero slope): the codes -2000
  give 3 W per channel and the larger codes 0 give 0 W.
\<close>

theorem negative_slope_conversion_decreases:
  "snapshot_W (bench_device [- 2000, - 2000, - 2000, - 2000] [0, 0, 0, 0])
      (uniform_session (- 100) 5) 1 None False 100 4700 10 False None ([], [])
     = (Inr (Powers [3, 3, 3, 3]), ([CmdSNAP 1], []))
   \<and> snapshot_W (bench_device [0, 0, 0, 0] [0, 0, 0, 0])
      (uniform_session (- 100) 5) 1 None False 100 4700 10 False None ([], [])
     = (Inr (Powers [0, 0, 0, 0]), ([CmdSNAP 1], []))
   \<and> (- 2000 :: int) \<le> 0 \<and> \<not> (3 :: real) \<le> 0"
proof -
  have v: "linear_sample_W (uniform_session (- 100) 5) (- 100) 5
             (py_round (of_int (- 2000) * (ADC_LSB_VOLTS * 1000)) 3) = 3"
    "linear_sample_W (uniform_session (- 100) 5) (- 100) 5
             (py_round (of_int 0 * (ADC_LSB_VOLTS * 1000)) 3) = 0"
    by (simp_all add: linear_sample_W_value uniform_session_simps(1) power_decimals_neg lsb_value
        py_round_def py_round_int_def Let_def)
  have "snapshot_W (bench_device [- 2000, - 2000, - 2000, - 2000] [0, 0, 0, 0])
      (uniform_session (- 100) 5) 1 None False 100 4700 10 False None ([], [])
     = (Inr (Powers (map (\<lambda>c. linear_sample_W (uniform_session (- 100) 5) (- 100) 5
                               (py_round (of_int c * (ADC_LSB_VOLTS * 1000)) 3))
                      [- 2000, - 2000, - 2000, - 2000])),
          ([] @ [CmdSNAP 1], []))"
    by (rule snapshot_W_uniform) simp_all
  with v(1) have a: "snapshot_W (bench_device [- 2000, - 2000, - 2000, - 2000] [0, 0, 0, 0])
      (uniform_session (- 100) 5) 1 None False 100 4700 10 False None ([], [])
     = (Inr (Powers [3, 3, 3, 3]), ([CmdSNAP 1], []))"
    by simp
  have "snapshot_W (bench_device [0, 0, 0, 0] [0, 0, 0, 0])
      (uniform_session (- 100) 5) 1 None False 100 4700 10 False None ([], [])
     = (Inr (Powers (map (\<lambda>c. linear_sample_W (uniform_session (- 100) 5) (- 100) 5
                               (py_round (of_int c * (ADC_LSB_VOLTS * 1000)) 3))
                      [0, 0, 0, 0])),
          ([] @ [CmdSNAP 1], []))"
    by (rule snapshot_W_uniform) simp_all
  with v(2) have b: "snapshot_W (bench_device [0, 0, 0, 0] [0, 0, 0, 0])
      (uniform_session (- 100) 5) 1 None False 100 4700 10 False None ([], [])
     = (Inr (Powers [0, 0, 0, 0]), ([CmdSNAP 1], []))"
    by simp
  from a b show ?thesis by simp
qed


theorem linear_conversion_monotone_witness:
  "mv_zero_threshold (uniform_session 100 5) = 0 \<and> (0 :: real) < 100 \<and> (688 :: int) \<le> 689
   \<and> (\<exists>p p'. snapshot_W_linear_ch (uniform_session 100 5)
                  [py_round (of_int (688 - 0) * (ADC_LSB_VOLTS * 1000)) 3] [0] 0 = Inr p
             \<and> snapshot_W_linear_ch (uniform_session 100 5)
                  [py_round (of_int (689 - 0) * (ADC_LSB_VOLTS * 1000)) 3] [0] 0 = Inr p'
             \<and> p \<le> p')
   \<and> (\<exists>ps. transfer_W_linear_ch (uniform_session 100 5)
                [map (\<lambda>code. of_int (code - 0) * (ADC_LSB_VOLTS * 1000)) [688, 689, 0]] [0] 0
              = Inr ps
           \<and> length ps = 3 \<and> ps ! 2 \<le> ps ! 0 \<and> ps ! 0 \<le> ps ! 1)"
proof -
  have look: "py_get [0 :: int] 0 = Inr 0"
    "py_get [py_round (of_int (688 - 0) * (ADC_LSB_VOLTS * 1000)) 3] 0
       = Inr (py_round (of_int (688 - 0) * (ADC_LSB_VOLTS * 1000)) 3)"
    "py_get [py_round (of_int (689 - 0) * (ADC_LSB_VOLTS * 1000)) 3] 0
       = Inr (py_round (of_int (689 - 0) * (ADC_LSB_VOLTS * 1000)) 3)"
    "py_get [map (\<lambda>code. of_int (code - 0) * (ADC_LSB_VOLTS * 1000)) [688, 689, 0 :: int]] 0
       = Inr (map (\<lambda>code. of_int (code - 0) * (ADC_LSB_VOLTS * 1000)) [688, 689, 0])"
    by (simp_all add: py_get_def)
  have le: "(688 :: int) \<le> 689" by simp
  note inst = linear_conversion_monotone_for_positive_slope
    [OF uniform_session_simps(1) look(1) uniform_session_simps(4)[of 0 0, simplified]
      uniform_session_simps(5)[of 0 0, simplified] look(2,3,4) le, of 100 5]
  from inst have a: "\<exists>p p'. snapshot_W_linear_ch (uniform_session 100 5)
                  [py_round (of_int (688 - 0) * (ADC_LSB_VOLTS * 1000)) 3] [0] 0 = Inr p
             \<and> snapshot_W_linear_ch (uniform_session 100 5)
                  [py_round (of_int (689 - 0) * (ADC_LSB_VOLTS * 1000)) 3] [0] 0 = Inr p'
             \<and> p \<le> p'"
    by simp
  from inst obtain ps where ps: "transfer_W_linear_ch (uniform_session 100 5)
                [map (\<lambda>code. of_int (code - 0) * (ADC_LSB_VOLTS * 1000)) [688, 689, 0]] [0] 0
              = Inr ps" "length ps = length [688, 689, 0 :: int]"
      "\<forall>i<length [688, 689, 0 :: int]. \<forall>j<length [688, 689, 0 :: int].
          [688, 689, 0 :: int] ! i \<le> [688, 689, 0] ! j \<longrightarrow> ps ! i \<le> ps ! j"
    by auto
  from ps(3) have "ps ! 2 \<le> ps ! 0" "ps ! 0 \<le> ps ! 1"
    by (simp_all add: All_less_Suc numeral_2_eq_2)
  with ps(1,2) have b: "\<exists>ps. transfer_W_linear_ch (uniform_session 100 5)
                [map (\<lambda>code. of_int (code - 0) * (ADC_LSB_VOLTS * 1000)) [688, 689, 0]] [0] 0
              = Inr ps
           \<and> length ps = 3 \<and> ps ! 2 \<le> ps ! 0 \<and> ps ! 0 \<le> ps ! 1"
    by (intro exI[of _ ps]) simp
  from a b uniform_session_simps(1)[of 100 5] le show ?thesis by simp
qed

subsection \<open>The autogain loop\<close>

lemma set_gain_log:
  assumes "set_gain dev s head val w = (r, w')"
  shows "(fst w' = fst w \<and> r \<noteq> Inr ())
       \<or> (fst w' = fst w @ [CmdGAIN head val] \<and> 1 \<le> head \<and> head \<le> 4 \<and> 0 \<le> val \<and> val \<le> 7)"
  using assms
  by (auto simp: set_gain_def ask_cmd_def exchange_def split: sum.splits if_splits prod.splits)



lemma set_gain_sent:
  assumes "set_gain dev s head val w = (r, w')" "fst w' \<noteq> fst w"
  shows "fst w' = fst w @ [CmdGAIN head val]" "gain_in_range (CmdGAIN head val)"
  using set_gain_log[OF assms(1)] assms(2) by (auto simp: gain_in_range_def)

lemma set_gain_ok:
  assumes "set_gain dev s head val w = (Inr u, w')"
  shows "fst w' = fst w @ [CmdGAIN head val]" "gain_in_range (CmdGAIN head val)"
  using set_gain_log[OF assms(1)] by (auto simp: gain_in_range_def)

text \<open>One channel of the pass: nothing sent, or the one command the reading calls for.\<close>
lemma autogain_channels_step:
  assumes "autogain_channels dev s lo hi mv_now gains (ch # chs) changed w = (r, w')"
  shows "(r, w') = autogain_channels dev s lo hi mv_now gains chs changed w
       \<or> (\<exists>e. r = Inl e \<and> fst w' = fst w)
       \<or> (\<exists>e c. r = Inl e \<and> fst w' = fst w @ [c]
              \<and> gain_in_range c \<and> called_for lo hi mv_now gains c)
       \<or> (\<exists>c w1. fst w1 = fst w @ [c] \<and> gain_in_range c \<and> called_for lo hi mv_now gains c
              \<and> (r, w') = autogain_channels dev s lo hi mv_now gains chs True w1)"
proof (cases "py_get mv_now ch")
  case (Inl e)
  with assms show ?thesis by auto
next
  case m: (Inr m)
  show ?thesis
  proof (cases "py_get gains ch")
    case (Inl e)
    with m assms show ?thesis by auto
  next
    case g: (Inr g)
    consider (up) "\<bar>m\<bar> < lo \<and> g < 7" | (down) "\<not> (\<bar>m\<bar> < lo \<and> g < 7)" "hi < \<bar>m\<bar> \<and> 0 < g"
      | (keep) "\<not> (\<bar>m\<bar> < lo \<and> g < 7)" "\<not> (hi < \<bar>m\<bar> \<and> 0 < g)" by blast
    then show ?thesis
    proof cases
      case keep
      with m g assms show ?thesis by auto
    next
      case up
      obtain r1 w1 where sg: "set_gain dev s (ch + 1) (g + 1) w = (r1, w1)"
        by (cases "set_gain dev s (ch + 1) (g + 1) w")
      have cf: "called_for lo hi mv_now gains (CmdGAIN (ch + 1) (g + 1))"
        unfolding called_for_def using up m g by blast
      show ?thesis
      proof (cases r1)
        case (Inl e)
        with up m g sg assms have res: "r = Inl e" "w' = w1" by simp_all
        show ?thesis
        proof (cases "fst w1 = fst w")
          case True
          with res show ?thesis by blast
        next
          case False
          from set_gain_sent[OF sg False] cf res show ?thesis by blast
        qed
      next
        case (Inr u)
        with up m g sg assms have
          "(r, w') = autogain_channels dev s lo hi mv_now gains chs True w1" by simp
        with set_gain_ok[OF sg[unfolded Inr]] cf show ?thesis by blast
      qed
    next
      case down
      obtain r1 w1 where sg: "set_gain dev s (ch + 1) (g - 1) w = (r1, w1)"
        by (cases "set_gain dev s (ch + 1) (g - 1) w")
      have cf: "called_for lo hi mv_now gains (CmdGAIN (ch + 1) (g - 1))"
        unfolding called_for_def using down m g by blast
      show ?thesis
      proof (cases r1)
        case (Inl e)
        with down m g sg assms have res: "r = Inl e" "w' = w1" by auto
        show ?thesis
        proof (cases "fst w1 = fst w")
          case True
          with res show ?thesis by blast
        next
          case False
          from set_gain_sent[OF sg False] cf res show ?thesis by blast
        qed
      next
        case (Inr u)
        with down m g sg assms have
          "(r, w') = autogain_channels dev s lo hi mv_now gains chs True w1" by auto
        with set_gain_ok[OF sg[unfolded Inr]] cf show ?thesis by blast
      qed
    qed
  qed
qed


text \<open>One pass over the channels.\<close>
lemma autogain_channels_pass:
  assumes "autogain_channels dev s lo hi mv_now gains chs changed w = (r, w')"
  shows "\<exists>new. fst w' = fst w @ new
     \<and> (\<forall>c\<in>set new. gain_in_range c \<and> called_for lo hi mv_now gains c)
     \<and> (r = Inr True \<longrightarrow> changed \<or> new \<noteq> [])
     \<and> (r = Inr False \<longrightarrow> \<not> changed \<and> new = [])"
  using assms
proof (induction chs arbitrary: changed w)
  case Nil
  then show ?case by auto
next
  case (Cons ch chs)
  from autogain_channels_step[OF Cons.prems]
  consider (skip) "(r, w') = autogain_channels dev s lo hi mv_now gains chs changed w"
    | (fail0) e where "r = Inl e" "fst w' = fst w"
    | (fail1) e c where "r = Inl e" "fst w' = fst w @ [c]" "gain_in_range c"
        "called_for lo hi mv_now gains c"
    | (sent) c w1 where "fst w1 = fst w @ [c]" "gain_in_range c" "called_for lo hi mv_now gains c"
        "(r, w') = autogain_channels dev s lo hi mv_now gains chs True w1"
    by blast
  then show ?case
  proof cases
    case skip
    then show ?thesis using Cons.IH[of changed w] by simp
  next
    case fail0
    then show ?thesis by (intro exI[of _ "[]"]) simp
  next
    case fail1
    then show ?thesis by (intro exI[of _ "[c]"]) simp
  next
    case sent
    from Cons.IH[OF sent(4)[symmetric]] obtain new where new: "fst w' = fst w1 @ new"
      "\<forall>c\<in>set new. gain_in_range c \<and> called_for lo hi mv_now gains c"
      "r = Inr False \<longrightarrow> \<not> True \<and> new = []"
      by blast
    with sent(1-3) show ?thesis by (intro exI[of _ "c # new"]) simp
  qed
qed

lemma snapshot_mV_log: "snapshot_mV dev s nf u w = (r, w') \<Longrightarrow> fst w' = fst w @ [CmdSNAP nf]"
  by (auto simp: snapshot_mV_def do_snapshot_adc_def exchange_def Let_def
      split: prod.splits sum.splits)

text \<open>The loop: at most \<open>n\<close> iterations, each a snapshot and then its gain commands.\<close>
lemma autogain_loop_log:
  assumes "autogain_loop dev s nf lo hi n w = (r, w')"
  shows "\<exists>blocks. fst w' = fst w @ concat (map (\<lambda>g. CmdSNAP nf # g) blocks)
     \<and> length blocks \<le> n
     \<and> (\<forall>g\<in>set blocks. \<forall>c\<in>set g. gain_in_range c)
     \<and> (\<forall>g\<in>set (butlast blocks). g \<noteq> [])"
  using assms
proof (induction n arbitrary: w)
  case 0
  then show ?case by (intro exI[of _ "[]"]) simp
next
  case (Suc n)
  obtain r1 w1 where snap: "snapshot_mV dev s nf None w = (r1, w1)"
    by (cases "snapshot_mV dev s nf None w")
  note l1 = snapshot_mV_log[OF snap]
  show ?case
  proof (cases r1)
    case (Inl e)
    with snap Suc.prems have "w' = w1" by simp
    with l1 show ?thesis by (intro exI[of _ "[[]]"]) simp
  next
    case (Inr rd)
    obtain mv_now gains where rd: "rd = (mv_now, gains)" by (cases rd)
    obtain r2 w2 where pass:
      "autogain_channels dev s lo hi mv_now gains [0, 1, 2, 3] False w1 = (r2, w2)"
      by (cases "autogain_channels dev s lo hi mv_now gains [0, 1, 2, 3] False w1")
    from autogain_channels_pass[OF pass] obtain new where new: "fst w2 = fst w1 @ new"
      "\<forall>c\<in>set new. gain_in_range c" "r2 = Inr True \<longrightarrow> new \<noteq> []"
      by blast
    have one: ?thesis if "w' = w2"
      using that new(1,2) l1 by (intro exI[of _ "[new]"]) simp
    show ?thesis
    proof (cases r2)
      case (Inl e)
      with snap Inr rd pass Suc.prems have "w' = w2" by (simp del: autogain_channels.simps)
      then show ?thesis by (rule one)
    next
      case ch: (Inr changed)
      show ?thesis
      proof (cases changed)
        case False
        with ch snap Inr rd pass Suc.prems have "w' = w2" by (simp del: autogain_channels.simps)
        then show ?thesis by (rule one)
      next
        case True
        with ch snap Inr rd pass Suc.prems have
          "autogain_loop dev s nf lo hi n w2 = (r, w')" by (simp del: autogain_channels.simps)
        from Suc.IH[OF this] obtain blocks where b:
          "fst w' = fst w2 @ concat (map (\<lambda>g. CmdSNAP nf # g) blocks)" "length blocks \<le> n"
          "\<forall>g\<in>set blocks. \<forall>c\<in>set g. gain_in_range c" "\<forall>g\<in>set (butlast blocks). g \<noteq> []"
          by blast
        from True ch new(3) have ne: "new \<noteq> []" by simp
        from b new(1,2) l1 ne show ?thesis
          by (intro exI[of _ "new # blocks"]) auto
      qed
    qed
  qed
qed


lemma py_get_mem: "py_get xs i = Inr v \<Longrightarrow> v \<in> set xs"
  by (auto simp: py_get_def split: if_splits)

lemma set_gain_value_error:
  assumes "set_gain dev s head val w = (Inl (ValueError msg), w')"
  shows "\<not> (1 \<le> head \<and> head \<le> 4 \<and> 0 \<le> val \<and> val \<le> 7)"
proof
  assume ok: "1 \<le> head \<and> head \<le> 4 \<and> 0 \<le> val \<and> val \<le> 7"
  then have "head = 1 \<or> head = 2 \<or> head = 3 \<or> head = 4" by arith
  with ok assms show False
    by (auto simp: set_gain_def ask_cmd_def exchange_def require_frontend_def
        split: if_splits prod.splits)
qed

text \<open>With reported gains in 0..7 no pass fails the range check of \<^verbatim>\<open>set_gain\<close>.\<close>
lemma autogain_channels_no_value_error:
  assumes "\<forall>ch\<in>set chs. 0 \<le> ch \<and> ch \<le> 3" "\<forall>g\<in>set gains. 0 \<le> g \<and> g \<le> 7"
  shows "fst (autogain_channels dev s lo hi mv_now gains chs changed w) \<noteq> Inl (ValueError msg)"
  using assms(1)
proof (induction chs arbitrary: changed w)
  case Nil
  then show ?case by simp
next
  case (Cons ch chs)
  from Cons.prems have chr: "0 \<le> ch" "ch \<le> 3" and rest: "\<forall>ch\<in>set chs. 0 \<le> ch \<and> ch \<le> 3"
    by simp_all
  note IH = Cons.IH[OF rest]
  show ?case
  proof (cases "py_get mv_now ch")
    case (Inl e)
    then have "e = IndexError" by (auto simp: py_get_def split: if_splits)
    with Inl show ?thesis by simp
  next
    case m: (Inr m)
    show ?thesis
    proof (cases "py_get gains ch")
      case (Inl e)
      then have "e = IndexError" by (auto simp: py_get_def split: if_splits)
      with m Inl show ?thesis by simp
    next
      case g: (Inr g)
      from py_get_mem[OF g] assms(2) have gr: "0 \<le> g" "g \<le> 7" by auto
      have no: "fst (set_gain dev s (ch + 1) v w) \<noteq> Inl (ValueError msg)"
        if "0 \<le> v" "v \<le> 7" for v
      proof
        assume "fst (set_gain dev s (ch + 1) v w) = Inl (ValueError msg)"
        then obtain w1 where "set_gain dev s (ch + 1) v w = (Inl (ValueError msg), w1)"
          by (cases "set_gain dev s (ch + 1) v w") simp
        from set_gain_value_error[OF this] chr that show False by simp
      qed
      show ?thesis
      proof (cases "\<bar>m\<bar> < lo \<and> g < 7")
        case True
        with gr no[of "g + 1"] IH m g show ?thesis
          by (auto split: prod.splits sum.splits)
      next
        case False
        show ?thesis
        proof (cases "hi < \<bar>m\<bar> \<and> 0 < g")
          case True
          with False gr no[of "g - 1"] IH m g show ?thesis
            by (auto split: prod.splits sum.splits)
        next
          case nd: False
          with False IH m g show ?thesis by auto
        qed
      qed
    qed
  qed
qed

text \<open>The commands of \<^verbatim>\<open>snapshot_W\<close> with autogain: the loop, then the final snapshot.\<close>
lemma snapshot_W_autogain_log:
  assumes "frontend_type s = LINEAR"
  shows "\<exists>blocks tail.
       fst (snd (snapshot_W dev s nf u True lo hi max_iters dbg db w))
         = fst w @ concat (map (\<lambda>g. CmdSNAP nf # g) blocks) @ tail
     \<and> (tail = [] \<or> tail = [CmdSNAP nf])
     \<and> length blocks \<le> nat max_iters
     \<and> (\<forall>g\<in>set blocks. \<forall>c\<in>set g. gain_in_range c)
     \<and> (\<forall>g\<in>set (butlast blocks). g \<noteq> [])"
proof -
  obtain r1 w1 where loop: "autogain_loop dev s nf lo hi (nat max_iters) w = (r1, w1)"
    by (cases "autogain_loop dev s nf lo hi (nat max_iters) w")
  from autogain_loop_log[OF loop] obtain blocks where b:
    "fst w1 = fst w @ concat (map (\<lambda>g. CmdSNAP nf # g) blocks)" "length blocks \<le> nat max_iters"
    "\<forall>g\<in>set blocks. \<forall>c\<in>set g. gain_in_range c" "\<forall>g\<in>set (butlast blocks). g \<noteq> []"
    by blast
  show ?thesis
  proof (cases r1)
    case (Inl e)
    with assms loop have "snd (snapshot_W dev s nf u True lo hi max_iters dbg db w) = w1"
      by (simp add: snapshot_W_def)
    with b show ?thesis by (intro exI[of _ blocks] exI[of _ "[]"]) simp
  next
    case (Inr x)
    obtain r2 w2 where snap: "snapshot_mV dev s nf None w1 = (r2, w2)"
      by (cases "snapshot_mV dev s nf None w1")
    with Inr assms loop have "snd (snapshot_W dev s nf u True lo hi max_iters dbg db w) = w2"
      by (auto simp: snapshot_W_def split: sum.splits prod.splits simp del: mapE.simps)
    with b snapshot_mV_log[OF snap] show ?thesis
      by (intro exI[of _ blocks] exI[of _ "[CmdSNAP nf]"]) simp
  qed
qed


text \<open>
  C4. Whatever the device, the session, the thresholds and the readings: the commands that
  the autogain loop adds are at most \<open>max_iters\<close> iterations, each one snapshot followed
  by the gain commands of that iteration; every gain command is for a head in 1..4 with a
  gain in 0..7; and every iteration but the last has sent a gain command, so an iteration
  that adjusts nothing ends the loop. \<^verbatim>\<open>snapshot_W\<close> with autogain adds these commands and
  at most the final snapshot. In one pass over the channels with the reading
  \<open>(mv_now, gains)\<close>, every gain command sent is the step the reading calls for (up only
  when the magnitude is below the low threshold and the gain below 7, down only when it is
  above the high threshold and the gain above 0), the pass reports a change exactly when
  it has sent a command, and with reported gains in 0..7 it never fails the range check of
  \<^verbatim>\<open>set_gain\<close>.
\<close>

theorem autogain_loop_bounded_and_in_range:
  "(\<exists>blocks. fst (snd (autogain_loop dev s nf lo hi (nat max_iters) w))
                = fst w @ concat (map (\<lambda>g. CmdSNAP nf # g) blocks)
        \<and> length blocks \<le> nat max_iters
        \<and> (\<forall>g\<in>set blocks. \<forall>c\<in>set g. gain_in_range c)
        \<and> (\<forall>g\<in>set (butlast blocks). g \<noteq> []))
   \<and> (frontend_type s = LINEAR \<longrightarrow>
        (\<exists>blocks tail.
            fst (snd (snapshot_W dev s nf u True lo hi max_iters dbg db w))
              = fst w @ concat (map (\<lambda>g. CmdSNAP nf # g) blocks) @ tail
          \<and> (tail = [] \<or> tail = [CmdSNAP nf])
          \<and> length blocks \<le> nat max_iters
          \<and> (\<forall>g\<in>set blocks. \<forall>c\<in>set g. gain_in_range c)
          \<and> (\<forall>g\<in>set (butlast blocks). g \<noteq> [])))
   \<and> (\<exists>new. fst (snd (autogain_channels dev s lo hi mv_now gains [0, 1, 2, 3] False w))
                = fst w @ new
        \<and> (\<forall>c\<in>set new. gain_in_range c \<and> called_for lo hi mv_now gains c)
        \<and> (fst (autogain_channels dev s lo hi mv_now gains [0, 1, 2, 3] False w) = Inr True
              \<longrightarrow> new \<noteq> [])
        \<and> (fst (autogain_channels dev s lo hi mv_now gains [0, 1, 2, 3] False w) = Inr False
              \<longrightarrow> new = []))
   \<and> ((\<forall>g\<in>set gains. 0 \<le> g \<and> g \<le> 7) \<longrightarrow>
        (\<forall>msg. fst (autogain_channels dev s lo hi mv_now gains [0, 1, 2, 3] False w)
                 \<noteq> Inl (ValueError msg)))"
proof -
  obtain r1 w1 where loop: "autogain_loop dev s nf lo hi (nat max_iters) w = (r1, w1)"
    by (cases "autogain_loop dev s nf lo hi (nat max_iters) w")
  from autogain_loop_log[OF loop] loop
  have 1: "\<exists>blocks. fst (snd (autogain_loop dev s nf lo hi (nat max_iters) w))
                = fst w @ concat (map (\<lambda>g. CmdSNAP nf # g) blocks)
        \<and> length blocks \<le> nat max_iters
        \<and> (\<forall>g\<in>set blocks. \<forall>c\<in>set g. gain_in_range c)
        \<and> (\<forall>g\<in>set (butlast blocks). g \<noteq> [])"
    by simp
  obtain r2 w2 where pass:
    "autogain_channels dev s lo hi mv_now gains [0, 1, 2, 3] False w = (r2, w2)"
    by (cases "autogain_channels dev s lo hi mv_now gains [0, 1, 2, 3] False w")
  from autogain_channels_pass[OF pass] pass
  have 3: "\<exists>new. fst (snd (autogain_channels dev s lo hi mv_now gains [0, 1, 2, 3] False w))
                = fst w @ new
        \<and> (\<forall>c\<in>set new. gain_in_range c \<and> called_for lo hi mv_now gains c)
        \<and> (fst (autogain_channels dev s lo hi mv_now gains [0, 1, 2, 3] False w) = Inr True
              \<longrightarrow> new \<noteq> [])
        \<and> (fst (autogain_channels dev s lo hi mv_now gains [0, 1, 2, 3] False w) = Inr False
              \<longrightarrow> new = [])"
    by (simp del: autogain_channels.simps)
  have 4: "fst (autogain_channels dev s lo hi mv_now gains [0, 1, 2, 3] False w)
                 \<noteq> Inl (ValueError msg)" if "\<forall>g\<in>set gains. 0 \<le> g \<and> g \<le> 7" for msg
    by (rule autogain_channels_no_value_error[OF _ that]) simp
  from 1 snapshot_W_autogain_log[of s dev nf u lo hi max_iters dbg db w] 3 4
  show ?thesis by blast
qed

text \<open>
  The plant starts at gains 0, 0, 0, 0 (15.259 mV per channel) with thresholds 100 and
  4700 mV and a budget of 10: three iterations step every gain up, the fourth reads
  122.07 mV, adjusts nothing and ends the loop.
\<close>

lemma plant_autogain_run:
  "autogain_loop plant_device (fresh_session LINEAR) 1 100 4700 (nat 10) ([], [0, 0, 0, 0])
   = (Inr (),
      ([CmdSNAP 1, CmdGAIN 1 1, CmdGAIN 2 1, CmdGAIN 3 1, CmdGAIN 4 1,
        CmdSNAP 1, CmdGAIN 1 2, CmdGAIN 2 2, CmdGAIN 3 2, CmdGAIN 4 2,
        CmdSNAP 1, CmdGAIN 1 3, CmdGAIN 2 3, CmdGAIN 3 3, CmdGAIN 4 3,
        CmdSNAP 1], [3, 3, 3, 3]))"
  by (simp add: eval_nat_numeral snapshot_mV_def do_snapshot_adc_def exchange_def
      plant_device_def silent_device_def apply_linear_zero_ch_def fresh_session_def bindE_def
      py_get_def lsb_value py_round_def py_round_int_def Let_def set_gain_def ask_cmd_def
      require_frontend_def)


theorem autogain_loop_witness:
  "autogain_loop plant_device (fresh_session LINEAR) 1 100 4700 (nat 10) ([], [0, 0, 0, 0])
   = (Inr (),
      ([CmdSNAP 1, CmdGAIN 1 1, CmdGAIN 2 1, CmdGAIN 3 1, CmdGAIN 4 1,
        CmdSNAP 1, CmdGAIN 1 2, CmdGAIN 2 2, CmdGAIN 3 2, CmdGAIN 4 2,
        CmdSNAP 1, CmdGAIN 1 3, CmdGAIN 2 3, CmdGAIN 3 3, CmdGAIN 4 3,
        CmdSNAP 1], [3, 3, 3, 3]))
   \<and> (\<exists>blocks.
        [CmdSNAP 1, CmdGAIN 1 1, CmdGAIN 2 1, CmdGAIN 3 1, CmdGAIN 4 1,
         CmdSNAP 1, CmdGAIN 1 2, CmdGAIN 2 2, CmdGAIN 3 2, CmdGAIN 4 2,
         CmdSNAP 1, CmdGAIN 1 3, CmdGAIN 2 3, CmdGAIN 3 3, CmdGAIN 4 3,
         CmdSNAP 1] = concat (map (\<lambda>g. CmdSNAP 1 # g) blocks)
        \<and> length blocks \<le> 10
        \<and> (\<forall>g\<in>set blocks. \<forall>c\<in>set g. gain_in_range c)
        \<and> (\<forall>g\<in>set (butlast blocks). g \<noteq> []))"
proof -
  have "\<exists>blocks. fst (snd (autogain_loop plant_device (fresh_session LINEAR) 1 100 4700 (nat 10)
                            ([], [0, 0, 0, 0])))
                = fst (([], [0, 0, 0, 0]) :: (int list) world)
                  @ concat (map (\<lambda>g. CmdSNAP 1 # g) blocks)
        \<and> length blocks \<le> nat 10
        \<and> (\<forall>g\<in>set blocks. \<forall>c\<in>set g. gain_in_range c)
        \<and> (\<forall>g\<in>set (butlast blocks). g \<noteq> [])"
    by (rule autogain_loop_bounded_and_in_range[THEN conjunct1])
  then have "\<exists>blocks.
        [CmdSNAP 1, CmdGAIN 1 1, CmdGAIN 2 1, CmdGAIN 3 1, CmdGAIN 4 1,
         CmdSNAP 1, CmdGAIN 1 2, CmdGAIN 2 2, CmdGAIN 3 2, CmdGAIN 4 2,
         CmdSNAP 1, CmdGAIN 1 3, CmdGAIN 2 3, CmdGAIN 3 3, CmdGAIN 4 3,
         CmdSNAP 1] = concat (map (\<lambda>g. CmdSNAP 1 # g) blocks)
        \<and> length blocks \<le> 10
        \<and> (\<forall>g\<in>set blocks. \<forall>c\<in>set g. gain_in_range c)
        \<and> (\<forall>g\<in>set (butlast blocks). g \<noteq> [])"
    unfolding plant_autogain_run by simp
  with plant_autogain_run show ?thesis by (intro conjI)
qed

subsection \<open>Bulk transfer\<close>

text \<open>
  The chunked read either ends with a timeout that reports fewer bytes than were asked
  for, or returns a buffer of exactly the requested length. On a transport that hands
  out a queue of pending bytes it times out exactly when the queue is shorter than the
  request.
\<close>

lemma ser_read_length: "ser_read dev k d = (r, d') \<Longrightarrow> length r \<le> k"
  by (auto simp: ser_read_def split: prod.splits)

text \<open>The read loop ends with a short-read error or with a full buffer.\<close>
lemma read_loop_result:
  assumes "read_loop dev n got buf d = (r, d')" "got \<le> n" "length buf = n"
  shows "(\<exists>g. r = Inl (TimeoutError g n) \<and> got \<le> g \<and> g < n) \<or> (\<exists>b. r = Inr b \<and> length b = n)"
  using assms
proof (induction dev n got buf d rule: read_loop.induct)
  case (1 dev n got buf d)
  show ?case
  proof (cases "got < n")
    case False
    with "1.prems" show ?thesis by (auto simp: read_loop.simps[of dev n got buf d])
  next
    case True
    obtain x d1 where rd: "ser_read dev (min 262144 (n - got)) d = (x, d1)"
      by (cases "ser_read dev (min 262144 (n - got)) d")
    from ser_read_length[OF rd] have lx: "length x \<le> n - got" by simp
    show ?thesis
    proof (cases "x = []")
      case e: True
      with True rd "1.prems" show ?thesis by (auto simp: read_loop.simps[of dev n got buf d])
    next
      case ne: False
      from True rd ne "1.prems"(1) have rec:
        "read_loop dev n (got + length x) (take got buf @ x @ drop (got + length x) buf) d1 = (r, d')"
        by (simp add: read_loop.simps[of dev n got buf d])
      have "(\<exists>g. r = Inl (TimeoutError g n) \<and> got + length x \<le> g \<and> g < n)
          \<or> (\<exists>b. r = Inr b \<and> length b = n)"
      proof (rule "1.IH"[OF True rd[symmetric] ne rec])
        show "got + length x \<le> n" using lx True by simp
        show "length (take got buf @ x @ drop (got + length x) buf) = n"
          using lx True "1.prems"(3) by simp
      qed
      then show ?thesis by auto
    qed
  qed
qed


lemma read_loop_done: "\<not> got < n \<Longrightarrow> read_loop dev n got buf d = (Inr buf, d)"
  by (subst read_loop.simps) simp

lemma read_loop_timeout:
  "got < n \<Longrightarrow> ser_read dev (min 262144 (n - got)) d = ([], d1) \<Longrightarrow>
   read_loop dev n got buf d = (Inl (TimeoutError got n), d1)"
  by (subst read_loop.simps) simp

lemma read_loop_step:
  "got < n \<Longrightarrow> ser_read dev (min 262144 (n - got)) d = (x, d1) \<Longrightarrow> x \<noteq> [] \<Longrightarrow>
   read_loop dev n got buf d
     = read_loop dev n (got + length x) (take got buf @ x @ drop (got + length x) buf) d1"
  by (subst read_loop.simps) simp

text \<open>
  A transport that hands out its pending bytes in order: the loop fails when fewer than
  the missing bytes are pending, and otherwise fills the buffer with the first of them.
\<close>
lemma read_loop_queue:
  assumes "read dev = (\<lambda>k q. (take k q, drop k q))" "got \<le> n" "length buf = n"
  shows "read_loop dev n got buf q =
     (if length q < n - got then (Inl (TimeoutError (got + length q) n), [])
      else (Inr (take got buf @ take (n - got) q), drop (n - got) q))"
  using assms
proof (induction dev n got buf q rule: read_loop.induct)
  case (1 dev n got buf q)
  note rd = "1.prems"(1)
  show ?case
  proof (cases "got < n")
    case False
    with "1.prems" show ?thesis by (simp add: read_loop_done)
  next
    case True
    define k where "k = min 262144 (n - got)"
    from True have kpos: "0 < k" "k \<le> n - got" by (simp_all add: k_def)
    have sr: "ser_read dev (min 262144 (n - got)) q = (take k q, drop k q)"
      by (simp add: ser_read_def rd k_def)
    show ?thesis
    proof (cases "q = []")
      case e: True
      with sr have "ser_read dev (min 262144 (n - got)) q = ([], [])" by simp
      from read_loop_timeout[OF True this] e True show ?thesis by simp
    next
      case ne: False
      with kpos have tne: "take k q \<noteq> []" by (cases q) simp_all
      note step = read_loop_step[OF True sr tne, of buf]
      have IH: "read_loop dev n (got + length (take k q))
              (take got buf @ take k q @ drop (got + length (take k q)) buf) (drop k q)
         = (if length (drop k q) < n - (got + length (take k q))
            then (Inl (TimeoutError (got + length (take k q) + length (drop k q)) n), [])
            else (Inr (take (got + length (take k q))
                        (take got buf @ take k q @ drop (got + length (take k q)) buf)
                       @ take (n - (got + length (take k q))) (drop k q)),
                  drop (n - (got + length (take k q))) (drop k q)))"
      proof (rule "1.IH"[OF True sr[symmetric] tne rd])
        show "got + length (take k q) \<le> n" using kpos True by simp
        show "length (take got buf @ take k q @ drop (got + length (take k q)) buf) = n"
          using kpos True "1.prems"(3) by simp
      qed
      show ?thesis
      proof (cases "length q < k")
        case short: True
        with kpos have "length q < n - got" by simp
        with short kpos show ?thesis unfolding step IH by simp
      next
        case long: False
        then have lt: "length (take k q) = k" by simp
        have pre: "take (got + k) (take got buf @ take k q @ drop (got + k) buf)
            = take got buf @ take k q"
          using "1.prems" lt by simp
        have "take (n - got) q = take (k + (n - (got + k))) q" using kpos by simp
        also have "\<dots> = take k q @ take (n - (got + k)) (drop k q)" by (rule take_add)
        finally have tk: "take k q @ take (n - (got + k)) (drop k q) = take (n - got) q" by simp
        have dk: "drop (n - (got + k)) (drop k q) = drop (n - got) q"
          using kpos by (simp add: add.commute)
        from long kpos have c: "length q - k < n - (got + k) \<longleftrightarrow> length q < n - got" by auto
        have "read_loop dev n got buf q
            = (if length q - k < n - (got + k)
               then (Inl (TimeoutError (got + k + (length q - k)) n), [])
               else (Inr (take (got + k) (take got buf @ take k q @ drop (got + k) buf)
                          @ take (n - (got + k)) (drop k q)),
                     drop (n - (got + k)) (drop k q)))"
          using step IH unfolding lt by simp
        also have "\<dots> = (if length q < n - got
               then (Inl (TimeoutError (got + length q) n), [])
               else (Inr (take got buf @ take (n - got) q), drop (n - got) q))"
          unfolding pre dk c using long tk by simp
        finally show ?thesis .
      qed
    qed
  qed
qed


text \<open>A buffer of \<open>2 * n\<close> bytes decodes to \<open>n\<close> samples, low byte first.\<close>
lemma frombytes_even:
  "length buf = 2 * n \<Longrightarrow>
   \<exists>samples. frombytes buf = Inr samples \<and> length samples = n
     \<and> (\<forall>k<n. samples ! k = le_int16 (buf ! (2 * k)) (buf ! (2 * k + 1)))"
proof (induction n arbitrary: buf)
  case 0
  then show ?case by simp
next
  case (Suc n)
  then obtain lo hi rest where buf: "buf = lo # hi # rest" "length rest = 2 * n"
    by (cases buf; cases "tl buf") auto
  from Suc.IH[OF buf(2)] obtain samples where s: "frombytes rest = Inr samples"
    "length samples = n" "\<forall>k<n. samples ! k = le_int16 (rest ! (2 * k)) (rest ! (2 * k + 1))"
    by blast
  have "\<forall>k<Suc n. (le_int16 lo hi # samples) ! k
      = le_int16 ((lo # hi # rest) ! (2 * k)) ((lo # hi # rest) ! (2 * k + 1))"
  proof (intro allI impI)
    fix k assume "k < Suc n"
    show "(le_int16 lo hi # samples) ! k
      = le_int16 ((lo # hi # rest) ! (2 * k)) ((lo # hi # rest) ! (2 * k + 1))"
    proof (cases k)
      case 0
      then show ?thesis by simp
    next
      case (Suc j)
      with \<open>k < Suc n\<close> s(3) show ?thesis by simp
    qed
  qed
  with s(1,2) buf(1) show ?case by simp
qed

lemma slice_step_4:
  assumes "length xs = 4 * f" "c < 4"
  shows "length (slice_step c 4 xs) = f"
    and "i < f \<Longrightarrow> slice_step c 4 xs ! i = xs ! (i * 4 + c)"
proof -
  from assms have n: "(length xs + 4 - 1 - c) div 4 = f" by simp
  then show "length (slice_step c 4 xs) = f" by (simp add: slice_step_def)
  assume "i < f"
  with n show "slice_step c 4 xs ! i = xs ! (i * 4 + c)"
    by (simp add: slice_step_def add.commute)
qed


lemma transfer_frames_adc_unfold:
  assumes "0 < frames" "n = nat (frames * 4 * 2)"
    "xfer_line dev n (snd w) = (Some line, d1)" "take 2 line = ''OK''"
    "read_loop dev n 0 (replicate n 0) d1 = (r, d2)"
  shows "transfer_frames_adc dev frames w =
     (case r of
        Inl e \<Rightarrow> (Inl e, (fst w @ [CmdXFER n], d2))
      | Inr buf \<Rightarrow>
          (case frombytes buf of
             Inl e \<Rightarrow> (Inl e, (fst w @ [CmdXFER n], d2))
           | Inr samples \<Rightarrow>
               if int (length (slice_step 0 4 samples)) \<noteq> frames
               then (Inl (CoreDAQError (ParseMismatch frames (length (slice_step 0 4 samples)))),
                     (fst w @ [CmdXFER n], d2))
               else (Inr [slice_step 0 4 samples, slice_step 1 4 samples,
                          slice_step 2 4 samples, slice_step 3 4 samples],
                     (fst w @ [CmdXFER n], d2))))"
  using assms(1,3,4,5) unfolding assms(2)
  by (simp add: transfer_frames_adc_def exchange_def Let_def split: sum.splits)

lemma transfer_frames_adc_sends:
  assumes "0 < frames"
  shows "fst (snd (transfer_frames_adc dev frames w)) = fst w @ [CmdXFER (nat (frames * 4 * 2))]"
  using assms
  by (auto simp: transfer_frames_adc_def exchange_def Let_def
      split: prod.splits option.splits sum.splits)

lemma bench_device_read: "read (bench_device codes gains) = (\<lambda>k q. (take k q, drop k q))"
  by (simp add: bench_device_def)

lemma bench_device_xfer_line: "xfer_line (bench_device codes gains) n q = (Some ''OK'', q)"
  by (simp add: bench_device_def)

lemma bench_read_loop_short:
  assumes "length q < n"
  shows "read_loop (bench_device codes gains) n 0 (replicate n 0) q
           = (Inl (TimeoutError (length q) n), [])"
  using read_loop_queue[OF bench_device_read, of 0 n "replicate n 0" codes gains q] assms
  by simp

lemma transfer_frames_adc_bench_short:
  assumes "0 < frames" "length q < nat (frames * 4 * 2)"
  shows "transfer_frames_adc (bench_device codes gains) frames (lg, q)
           = (Inl (TimeoutError (length q) (nat (frames * 4 * 2))),
              (lg @ [CmdXFER (nat (frames * 4 * 2))], []))"
  using transfer_frames_adc_unfold[OF assms(1) refl, of "bench_device codes gains" "(lg, q)"
          "''OK''" q "Inl (TimeoutError (length q) (nat (frames * 4 * 2)))" "[]"]
    bench_read_loop_short[OF assms(2), of codes gains]
  by (simp add: bench_device_xfer_line)

text \<open>
  C6, as stated, at its own example. The claim takes 4000 bytes to be what 1000 frames
  require. The driver asks for 1000 * 4 * 2 = 8000 bytes, so a transport that delivers
  exactly 4000 bytes does not complete the read: \<^verbatim>\<open>transfer_frames_adc\<close> raises the
  timeout error reporting 4000 of 8000 bytes.
\<close>

theorem four_thousand_bytes_are_short_for_1000_frames:
  "transfer_frames_adc (bench_device [] []) 1000 ([], replicate 4000 0)
     = (Inl (TimeoutError 4000 8000), ([CmdXFER 8000], []))"
  using transfer_frames_adc_bench_short[of 1000 "replicate 4000 0" "[]" "[]" "[]"]
  by simp

text \<open>
  On a transport that delivers its pending bytes the chunked read times out exactly when
  fewer than the missing bytes are pending, reporting how many it received, and otherwise
  fills the buffer with the first of them, in order.
\<close>

lemma delivers_read:
  assumes "delivers dev pending" "0 < k" "read dev k d = (c, d')"
  shows "length c \<le> k" "c = take (length c) (pending d)" "c = [] \<longleftrightarrow> pending d = []"
    "pending d' = drop (length c) (pending d)"
  using assms unfolding delivers_def by (auto split: prod.splits)

lemma read_loop_delivers:
  assumes "delivers dev pending" "got \<le> n" "length buf = n"
  shows "fst (read_loop dev n got buf d) =
     (if length (pending d) < n - got then Inl (TimeoutError (got + length (pending d)) n)
      else Inr (take got buf @ take (n - got) (pending d)))
   \<and> pending (snd (read_loop dev n got buf d)) = drop (n - got) (pending d)"
  using assms
proof (induction dev n got buf d rule: read_loop.induct)
  case (1 dev n got buf d)
  note dl = "1.prems"(1)
  show ?case
  proof (cases "got < n")
    case False
    with "1.prems" show ?thesis by (simp add: read_loop_done)
  next
    case True
    define k where "k = min 262144 (n - got)"
    from True have kpos: "0 < k" "k \<le> n - got" by (simp_all add: k_def)
    obtain c d1 where rd: "read dev k d = (c, d1)" by (cases "read dev k d")
    note f = delivers_read[OF dl kpos(1) rd]
    from f(1) rd have sr: "ser_read dev (min 262144 (n - got)) d = (c, d1)"
      by (simp add: ser_read_def k_def)
    show ?thesis
    proof (cases "c = []")
      case e: True
      with f have p: "pending d = []" "pending d1 = []" by simp_all
      from read_loop_timeout[OF True sr[unfolded e]] p True show ?thesis by simp
    next
      case ne: False
      note step = read_loop_step[OF True sr ne, of buf]
      from f(1) kpos have lc: "length c \<le> n - got" by simp
      from f(2) have lp: "length c \<le> length (pending d)"
        by (metis length_take min.cobounded1)
      have IH: "fst (read_loop dev n (got + length c)
              (take got buf @ c @ drop (got + length c) buf) d1) =
          (if length (pending d1) < n - (got + length c)
           then Inl (TimeoutError (got + length c + length (pending d1)) n)
           else Inr (take (got + length c) (take got buf @ c @ drop (got + length c) buf)
                     @ take (n - (got + length c)) (pending d1)))
        \<and> pending (snd (read_loop dev n (got + length c)
              (take got buf @ c @ drop (got + length c) buf) d1))
          = drop (n - (got + length c)) (pending d1)"
      proof (rule "1.IH"[OF True sr[symmetric] ne dl])
        show "got + length c \<le> n" using lc True by simp
        show "length (take got buf @ c @ drop (got + length c) buf) = n"
          using lc True "1.prems"(3) by simp
      qed
      have pre: "take (got + length c) (take got buf @ c @ drop (got + length c) buf)
            = take got buf @ c"
        using "1.prems" True by simp
      from lc have ar: "n - got = length c + (n - (got + length c))" by arith
      have "take (n - got) (pending d) = take (length c + (n - (got + length c))) (pending d)"
        by (subst ar) (rule refl)
      also have "\<dots> = take (length c) (pending d)
                       @ take (n - (got + length c)) (drop (length c) (pending d))"
        by (rule take_add)
      finally have tk: "c @ take (n - (got + length c)) (pending d1) = take (n - got) (pending d)"
        using f(2) f(4) by simp
      from lc have ar2: "n - (got + length c) + length c = n - got" by arith
      have dk: "drop (n - (got + length c)) (pending d1) = drop (n - got) (pending d)"
        unfolding f(4) drop_drop ar2 by (rule refl)
      from lp lc f(4) have cnd:
        "length (pending d1) < n - (got + length c) \<longleftrightarrow> length (pending d) < n - got"
        by auto
      from lp f(4) have ln: "got + length c + length (pending d1) = got + length (pending d)"
        by simp
      show ?thesis unfolding step using IH unfolding pre dk cnd ln using tk by simp
    qed
  qed
qed


lemma transfer_frames_adc_decode:
  assumes "0 < frames" "n = nat (frames * 4 * 2)"
    "xfer_line dev n (snd w) = (Some line, d1)" "take 2 line = ''OK''"
    "read_loop dev n 0 (replicate n 0) d1 = (Inr buf, d2)"
  shows "\<exists>chs. transfer_frames_adc dev frames w = (Inr chs, (fst w @ [CmdXFER n], d2))
           \<and> length chs = 4
           \<and> (\<forall>c<4. length (chs ! c) = nat frames
                 \<and> (\<forall>i<nat frames.
                       chs ! c ! i = le_int16 (buf ! (2 * (i * 4 + c)))
                                              (buf ! (2 * (i * 4 + c) + 1))))"
proof -
  note unf = transfer_frames_adc_unfold[OF assms]
  from read_loop_result[OF assms(5)] have lb: "length buf = n" by simp
  from assms have n8: "n = 2 * (4 * nat frames)" by (simp add: nat_mult_distrib)
  from frombytes_even[of buf "4 * nat frames"] lb n8 obtain samples where
    sm: "frombytes buf = Inr samples" "length samples = 4 * nat frames"
      "\<forall>k<4 * nat frames. samples ! k = le_int16 (buf ! (2 * k)) (buf ! (2 * k + 1))"
    by auto
  let ?chs = "[slice_step 0 4 samples, slice_step 1 4 samples,
               slice_step 2 4 samples, slice_step 3 4 samples]"
  have len0: "int (length (slice_step 0 4 samples)) = frames"
    using slice_step_4(1)[OF sm(2), of 0] assms(1) by simp
  from unf sm(1) len0 have run:
    "transfer_frames_adc dev frames w = (Inr ?chs, (fst w @ [CmdXFER n], d2))"
    by simp
  have chan: "length (?chs ! c) = nat frames
      \<and> (\<forall>i<nat frames. ?chs ! c ! i = le_int16 (buf ! (2 * (i * 4 + c)))
                                                (buf ! (2 * (i * 4 + c) + 1)))"
    if c: "c < 4" for c
  proof -
    from four_cases[OF c] have sel: "?chs ! c = slice_step c 4 samples" by auto
    have "slice_step c 4 samples ! i
        = le_int16 (buf ! (2 * (i * 4 + c))) (buf ! (2 * (i * 4 + c) + 1))"
      if i: "i < nat frames" for i
    proof -
      from i c have "i * 4 + c < 4 * nat frames" by simp
      with sm(3) slice_step_4(2)[OF sm(2) c i] show ?thesis by simp
    qed
    with slice_step_4(1)[OF sm(2) c] show ?thesis unfolding sel by simp
  qed
  from run chan show ?thesis by (intro exI[of _ ?chs]) simp
qed

lemma transfer_frames_adc_no_mismatch:
  assumes "0 < frames"
  shows "fst (transfer_frames_adc dev frames w) \<noteq> Inl (CoreDAQError (ParseMismatch a b))"
proof -
  define n where "n = nat (frames * 4 * 2)"
  obtain l d1 where x: "xfer_line dev n (snd w) = (l, d1)" by (cases "xfer_line dev n (snd w)")
  show ?thesis
  proof (cases l)
    case None
    with x assms show ?thesis
      by (simp add: transfer_frames_adc_def exchange_def Let_def n_def)
  next
    case (Some line)
    show ?thesis
    proof (cases "take 2 line = ''OK''")
      case False
      with x Some assms show ?thesis
        by (simp add: transfer_frames_adc_def exchange_def Let_def n_def)
    next
      case True
      obtain r d2 where rl: "read_loop dev n 0 (replicate n 0) d1 = (r, d2)"
        by (cases "read_loop dev n 0 (replicate n 0) d1")
      from x Some have x': "xfer_line dev n (snd w) = (Some line, d1)" by simp
      from read_loop_result[OF rl] consider
        (short) g where "r = Inl (TimeoutError g n)"
        | (full) buf where "r = Inr buf"
        by auto
      then show ?thesis
      proof cases
        case short
        with transfer_frames_adc_unfold[OF assms n_def x' True rl] show ?thesis by simp
      next
        case full
        with transfer_frames_adc_decode[OF assms n_def x' True] rl show ?thesis by auto
      qed
    qed
  qed
qed

lemma bench_device_delivers: "delivers (bench_device codes gains) (\<lambda>q. q)"
  by (auto simp: delivers_def bench_device_def min_def)

text \<open>
  C6, amended. For every \<open>frames > 0\<close> the driver sends \<^verbatim>\<open>XFER n\<close> with
  \<open>n = frames * 4 * 2\<close> (8000 for 1000 frames), on every device. When the device answers
  OK and the transport delivers fewer than \<open>n\<close> bytes, the call raises \<^verbatim>\<open>TimeoutError\<close>
  reporting the number of bytes delivered and \<open>n\<close>, and returns nothing. When the
  transport delivers at least \<open>n\<close> bytes, the call consumes the first \<open>n\<close> of them and
  returns 4 sequences, each of length \<open>frames\<close>, where sample \<open>i\<close> of channel \<open>c\<close> is the
  little-endian signed 16-bit value of element \<open>i * 4 + c\<close> of what was delivered (bytes
  \<open>2 * (i * 4 + c)\<close> and \<open>2 * (i * 4 + c) + 1\<close>). On no device does the call end with the
  parse-mismatch error: after a complete read the sequences always have the requested
  length.
\<close>

theorem transfer_frames_adc_contract:
  assumes "0 < frames" and "n = nat (frames * 4 * 2)"
  shows "fst (snd (transfer_frames_adc dev frames w)) = fst w @ [CmdXFER n]
    \<and> (\<forall>a b. fst (transfer_frames_adc dev frames w) \<noteq> Inl (CoreDAQError (ParseMismatch a b)))
    \<and> (delivers dev pending \<longrightarrow>
        (\<forall>line d1.
          xfer_line dev n (snd w) = (Some line, d1) \<longrightarrow> take 2 line = ''OK'' \<longrightarrow>
            (length (pending d1) < n \<longrightarrow>
               fst (transfer_frames_adc dev frames w)
                 = Inl (TimeoutError (length (pending d1)) n))
          \<and> (n \<le> length (pending d1) \<longrightarrow>
               (\<exists>chs. fst (transfer_frames_adc dev frames w) = Inr chs
                  \<and> length chs = 4
                  \<and> (\<forall>c<4. length (chs ! c) = nat frames
                        \<and> (\<forall>i<nat frames.
                              chs ! c ! i = le_int16 (pending d1 ! (2 * (i * 4 + c)))
                                                     (pending d1 ! (2 * (i * 4 + c) + 1))))
                  \<and> pending (snd (snd (transfer_frames_adc dev frames w)))
                      = drop n (pending d1)))))"
proof -
  have 1: "fst (snd (transfer_frames_adc dev frames w)) = fst w @ [CmdXFER n]"
    unfolding assms(2) by (rule transfer_frames_adc_sends[OF assms(1)])
  have 2: "fst (transfer_frames_adc dev frames w) \<noteq> Inl (CoreDAQError (ParseMismatch a b))"
    for a b by (rule transfer_frames_adc_no_mismatch[OF assms(1)])
  have 3: "fst (transfer_frames_adc dev frames w) = Inl (TimeoutError (length (pending d1)) n)"
    if dl: "delivers dev pending"
      and x: "xfer_line dev n (snd w) = (Some line, d1)" "take 2 line = ''OK''"
      and short: "length (pending d1) < n" for line d1
  proof -
    obtain r d2 where rl: "read_loop dev n 0 (replicate n 0) d1 = (r, d2)"
      by (cases "read_loop dev n 0 (replicate n 0) d1")
    from read_loop_delivers[OF dl, of 0 n "replicate n 0" d1] short rl
    have "r = Inl (TimeoutError (length (pending d1)) n)" by simp
    with transfer_frames_adc_unfold[OF assms x rl] show ?thesis by simp
  qed
  have 4: "\<exists>chs. fst (transfer_frames_adc dev frames w) = Inr chs
                  \<and> length chs = 4
                  \<and> (\<forall>c<4. length (chs ! c) = nat frames
                        \<and> (\<forall>i<nat frames.
                              chs ! c ! i = le_int16 (pending d1 ! (2 * (i * 4 + c)))
                                                     (pending d1 ! (2 * (i * 4 + c) + 1))))
                  \<and> pending (snd (snd (transfer_frames_adc dev frames w)))
                      = drop n (pending d1)"
    if dl: "delivers dev pending"
      and x: "xfer_line dev n (snd w) = (Some line, d1)" "take 2 line = ''OK''"
      and full: "n \<le> length (pending d1)" for line d1
  proof -
    obtain r d2 where rl: "read_loop dev n 0 (replicate n 0) d1 = (r, d2)"
      by (cases "read_loop dev n 0 (replicate n 0) d1")
    from read_loop_delivers[OF dl, of 0 n "replicate n 0" d1] full rl
    have r: "r = Inr (take n (pending d1))" and p: "pending d2 = drop n (pending d1)"
      by simp_all
    from transfer_frames_adc_decode[OF assms x rl[unfolded r]] obtain chs where
      run: "transfer_frames_adc dev frames w = (Inr chs, (fst w @ [CmdXFER n], d2))"
      and len: "length chs = 4"
      and dec: "\<forall>c<4. length (chs ! c) = nat frames
                 \<and> (\<forall>i<nat frames.
                       chs ! c ! i = le_int16 (take n (pending d1) ! (2 * (i * 4 + c)))
                                              (take n (pending d1) ! (2 * (i * 4 + c) + 1)))"
      by blast
    from assms have n8: "n = 2 * (4 * nat frames)" by (simp add: nat_mult_distrib)
    have idx: "take n (pending d1) ! (2 * (i * 4 + c)) = pending d1 ! (2 * (i * 4 + c))"
      "take n (pending d1) ! (2 * (i * 4 + c) + 1) = pending d1 ! (2 * (i * 4 + c) + 1)"
      if "c < 4" "i < nat frames" for c i
      using that n8 by simp_all
    from run len dec p idx show ?thesis by (intro exI[of _ chs]) simp
  qed
  from 1 2 3 4 show ?thesis by blast
qed

text \<open>
  The theorem at 1000 frames on a queue of 3990 pending bytes: the timeout error reports
  3990 of 8000 bytes. A complete read of one frame decodes the four channels and leaves
  the ninth byte pending.
\<close>

theorem transfer_frames_adc_contract_witness:
  "delivers (bench_device [] []) (\<lambda>q. q)
   \<and> fst (transfer_frames_adc (bench_device [] []) 1000 ([], replicate 3990 0))
     = Inl (TimeoutError 3990 8000)
   \<and> fst (snd (transfer_frames_adc (bench_device [] []) 1000 ([], replicate 3990 0)))
     = [CmdXFER 8000]
   \<and> transfer_frames_adc (bench_device [] []) 1
              ([], [0x2C, 0x07, 0x43, 0x03, 0, 0, 0x5F, 0xFF, 0x01])
     = (Inr [[1836], [835], [0], [- 161]], ([CmdXFER 8], [0x01]))"
proof -
  have a: "(0::int) < 1000" and b: "8000 = nat (1000 * 4 * 2)" by simp_all
  note inst = transfer_frames_adc_contract[OF a b, where dev = "bench_device [] []"
      and w = "([], replicate 3990 0)" and pending = "\<lambda>q. q"]
  note sent = inst[THEN conjunct1]
  note short = inst[THEN conjunct2, THEN conjunct2, rule_format,
      OF bench_device_delivers, where line = "''OK''" and ?d1.0 = "replicate 3990 0",
      THEN conjunct1, rule_format]
  have s: "fst (transfer_frames_adc (bench_device [] []) 1000 ([], replicate 3990 0))
     = Inl (TimeoutError 3990 8000)"
    using short by (simp add: bench_device_xfer_line)
  have full: "transfer_frames_adc (bench_device [] []) 1
              ([], [0x2C, 0x07, 0x43, 0x03, 0, 0, 0x5F, 0xFF, 0x01])
     = (Inr [[1836], [835], [0], [- 161]], ([CmdXFER 8], [0x01]))"
    by (simp add: transfer_frames_adc_def exchange_def bench_device_def silent_device_def
        read_loop.simps ser_read_def frombytes.simps slice_step_def le_int16_def)
  from s sent full bench_device_delivers show ?thesis by simp
qed

end
